theory Spec2Isabelle
  imports Complex_Main "HOL-Library.Word" "HOL-Library.Log_Nat" "HOL-Library.Code_Target_Numeral"
begin

unbundle bit_operations_syntax

section \<open>Rasters\<close>

text \<open>
  A \<^verbatim>\<open>cv::Mat\<close> of depth \<^verbatim>\<open>CV_8U\<close> is a dense grid of pixels; a pixel is the list of its
  channel bytes (one byte for \<^verbatim>\<open>CV_8U\<close>, three for \<^verbatim>\<open>CV_8UC3\<close>), and the pixels are kept
  in row-major order. Two rasters are byte-identical exactly when they are equal.
\<close>

type_synonym byte = "8 word"
type_synonym pixel = "byte list"
type_synonym Point = "int \<times> int"
type_synonym Scalar = "byte list"
type_synonym contour = "Point list"

record raster =
  rows :: nat
  cols :: nat
  chans :: nat
  pixels :: "pixel list"

definition Mat_empty :: raster where
  \<comment> \<open>\<^verbatim>\<open>cv::Mat()\<close>: no rows, no columns, no data\<close>
  "Mat_empty = \<lparr>rows = 0, cols = 0, chans = 1, pixels = []\<rparr>"

definition empty_raster :: "raster \<Rightarrow> bool" where
  \<comment> \<open>\<^verbatim>\<open>Mat::empty()\<close>\<close>
  "empty_raster r \<longleftrightarrow> rows r * cols r = 0"

definition Mat_fill :: "nat \<Rightarrow> nat \<Rightarrow> nat \<Rightarrow> Scalar \<Rightarrow> raster" where
  \<comment> \<open>\<^verbatim>\<open>cv::Mat(size, type, scalar)\<close>: every pixel is the first \<open>ch\<close> components of the scalar\<close>
  "Mat_fill h w ch v = \<lparr>rows = h, cols = w, chans = ch, pixels = replicate (h * w) (take ch v)\<rparr>"

definition zeros :: "nat \<Rightarrow> nat \<Rightarrow> raster" where
  \<comment> \<open>\<^verbatim>\<open>cv::Mat::zeros(rows, cols, CV_8U)\<close>\<close>
  "zeros h w = Mat_fill h w 1 [0]"

definition nonzero :: "pixel \<Rightarrow> bool" where
  "nonzero p \<longleftrightarrow> (\<exists>b \<in> set p. b \<noteq> 0)"

definition setTo :: "raster \<Rightarrow> Scalar \<Rightarrow> raster \<Rightarrow> string + raster" where
  \<comment> \<open>\<^verbatim>\<open>Mat::setTo(value, mask)\<close>: the pixels whose mask byte is not zero take the value, the
      others stay; a mask of another size or type raises\<close>
  "setTo r v msk =
     (if rows msk = rows r \<and> cols msk = cols r \<and> chans msk = 1
         \<and> length (pixels msk) = length (pixels r)
      then Inr (r\<lparr>pixels := map (\<lambda>(p, m). if nonzero m then take (chans r) v else p)
                                 (zip (pixels r) (pixels msk))\<rparr>)
      else Inl ''setTo: mask size or type'')"

definition bitwise_and :: "raster \<Rightarrow> raster \<Rightarrow> string + raster" where
  \<comment> \<open>\<^verbatim>\<open>cv::bitwise_and(a, b, dst)\<close>: byte by byte; operands of different size or type raise\<close>
  "bitwise_and a b =
     (if rows a = rows b \<and> cols a = cols b \<and> chans a = chans b
         \<and> length (pixels a) = length (pixels b)
      then Inr (a\<lparr>pixels := map (\<lambda>(p, q). map (\<lambda>(x, y). x AND y) (zip p q))
                                 (zip (pixels a) (pixels b))\<rparr>)
      else Inl ''bitwise_and: size or type of the operands'')"

section \<open>The session state\<close>

text \<open>
  A \<^verbatim>\<open>cv::Mat\<close> value is a header that shares its pixel buffer with its copies; only
  \<^verbatim>\<open>clone()\<close> and the constructors allocate a buffer. The buffers live in an explicit store,
  the list of all buffers allocated so far: a \<open>Mat\<close> is the address of its buffer (\<open>None\<close> is
  the empty header), and an allocation appends a buffer, so its address was never used before.
  The \<^verbatim>\<open>QImage\<close> behind \<^verbatim>\<open>drawingImage\<close> is built on \<^verbatim>\<open>coloringPage.data\<close>, so it is an address
  of the same store (\<open>None\<close> is \<^verbatim>\<open>nullptr\<close>).
\<close>

type_synonym Mat = "nat option"

datatype MouseButton = NoButton | LeftButton | RightButton | MiddleButton

record QMouseEvent =
  button :: MouseButton
  pos :: Point

datatype dialog = Critical string | Information string

record generator =
  heap :: "raster list"
  area_pos :: Point
  area_width :: int
  area_height :: int
  area_pixmap :: "raster option"
  min_size :: "int \<times> int"
  drawingImage :: "nat option"
  drawing :: bool
  lastPoint :: Point
  coloringPage :: Mat
  coloringPageHistory :: "Mat list"
  fillColor :: "byte \<times> byte \<times> byte"
  fillToolEnabled :: bool

definition fresh :: "generator \<Rightarrow> nat" where
  \<comment> \<open>the address the next allocation takes\<close>
  "fresh s = length (heap s)"

definition deref :: "generator \<Rightarrow> Mat \<Rightarrow> raster" where
  "deref s m = (case m of None \<Rightarrow> Mat_empty
                | Some a \<Rightarrow> if a < fresh s then heap s ! a else Mat_empty)"

definition alloc :: "raster \<Rightarrow> generator \<Rightarrow> Mat \<times> generator" where
  "alloc r s = (Some (fresh s), s\<lparr>heap := heap s @ [r]\<rparr>)"

definition clone :: "Mat \<Rightarrow> generator \<Rightarrow> Mat \<times> generator" where
  \<comment> \<open>\<^verbatim>\<open>Mat::clone()\<close>: a new buffer with the same bytes\<close>
  "clone m s = (case m of None \<Rightarrow> (None, s) | Some a \<Rightarrow> alloc (deref s m) s)"

definition store :: "Mat \<Rightarrow> raster \<Rightarrow> generator \<Rightarrow> generator" where
  \<comment> \<open>an in-place write through a header or a \<^verbatim>\<open>QImage\<close>\<close>
  "store m r s = (case m of None \<Rightarrow> s | Some a \<Rightarrow> s\<lparr>heap := (heap s)[a := r]\<rparr>)"

definition page :: "generator \<Rightarrow> raster" where
  \<comment> \<open>the working raster\<close>
  "page s = deref s (coloringPage s)"

definition snapshots :: "generator \<Rightarrow> raster list" where
  \<comment> \<open>the rasters held by the history, oldest first\<close>
  "snapshots s = map (deref s) (coloringPageHistory s)"

definition initial :: "Point \<Rightarrow> int \<Rightarrow> int \<Rightarrow> Point \<Rightarrow> byte \<times> byte \<times> byte \<Rightarrow> bool \<Rightarrow> generator" where
  \<comment> \<open>the constructor sets \<^verbatim>\<open>drawingImage = nullptr\<close> and \<^verbatim>\<open>drawing = false\<close>; the geometry of the
      label comes from the layout, and \<^verbatim>\<open>lastPoint\<close>, \<^verbatim>\<open>fillColor\<close> and \<^verbatim>\<open>fillToolEnabled\<close> are
      whatever their default construction leaves\<close>
  "initial ap w h lp fc ft =
     \<lparr>heap = [], area_pos = ap, area_width = w, area_height = h,
      area_pixmap = None, min_size = (0, 0), drawingImage = None, drawing = False,
      lastPoint = lp, coloringPage = None, coloringPageHistory = [],
      fillColor = fc, fillToolEnabled = ft\<rparr>"

section \<open>The library operations\<close>

text \<open>
  The image-processing and painting routines are OpenCV's and Qt's. They are parameters of
  the model: a routine that can raise \<^verbatim>\<open>cv::Exception\<close> returns the message on the left.
  \<^verbatim>\<open>cv::floodFill\<close> checks its arguments before it writes a pixel, so a fault carries no
  raster.
\<close>

record lib =
  imread :: "string \<Rightarrow> raster"
  resize :: "raster \<Rightarrow> int \<times> int \<Rightarrow> string + raster"
  cvtColor :: "raster \<Rightarrow> string + raster"
  adaptiveThreshold :: "raster \<Rightarrow> string + raster"
  dilate :: "raster \<Rightarrow> nat \<times> nat \<Rightarrow> string + raster"
  erode :: "raster \<Rightarrow> nat \<times> nat \<Rightarrow> string + raster"
  findContours :: "raster \<Rightarrow> string + contour list"
  contourArea :: "contour \<Rightarrow> rat"
  approxPolyDP :: "contour \<Rightarrow> int \<Rightarrow> string + contour"
  drawContours :: "raster \<Rightarrow> contour \<Rightarrow> Scalar \<Rightarrow> int \<Rightarrow> int \<Rightarrow> string + raster"
  morphologyEx :: "raster \<Rightarrow> nat \<times> nat \<Rightarrow> string + raster"
  inpaint :: "raster \<Rightarrow> raster \<Rightarrow> string + raster"
  floodFill :: "raster \<Rightarrow> raster \<Rightarrow> Point \<Rightarrow> Scalar \<Rightarrow> string + raster"
  drawLine :: "raster \<Rightarrow> Point \<Rightarrow> Point \<Rightarrow> byte \<times> byte \<times> byte \<Rightarrow> raster"
  save :: "raster \<Rightarrow> string \<Rightarrow> bool"

section \<open>Edit history\<close>

definition addToColoringPageHistory :: "Mat \<Rightarrow> generator \<Rightarrow> generator" where
  \<comment> \<open>\<^verbatim>\<open>coloringPageHistory.push_back(page.clone())\<close>\<close>
  "addToColoringPageHistory p s =
     (let (c, s1) = clone p s
      in s1\<lparr>coloringPageHistory := coloringPageHistory s1 @ [c]\<rparr>)"

definition commit :: "generator \<Rightarrow> generator" where
  \<comment> \<open>\<^verbatim>\<open>addToColoringPageHistory(coloringPage.clone())\<close>, as both callers write it\<close>
  "commit s = (let (t, s1) = clone (coloringPage s) s in addToColoringPageHistory t s1)"

definition undoLastAction :: "generator \<Rightarrow> generator" where
  "undoLastAction s =
     (if length (coloringPageHistory s) > 1 then
        let s1 = s\<lparr>coloringPageHistory := butlast (coloringPageHistory s)\<rparr>;
            (c, s2) = clone (last (coloringPageHistory s1)) s1;
            s3 = s2\<lparr>coloringPage := c\<rparr>;
            s4 = s3\<lparr>drawingImage := coloringPage s3\<rparr>
        in s4\<lparr>area_pixmap := Some (deref s4 (drawingImage s4))\<rparr>
      else s)"

section \<open>Pointer events\<close>

definition rect_contains :: "int \<Rightarrow> int \<Rightarrow> Point \<Rightarrow> bool" where
  \<comment> \<open>\<^verbatim>\<open>drawingArea->rect().contains(p)\<close> for the rectangle \<open>(0, 0, w, h)\<close>\<close>
  "rect_contains w h p \<longleftrightarrow> 0 \<le> fst p \<and> fst p \<le> w - 1 \<and> 0 \<le> snd p \<and> snd p \<le> h - 1"

definition point_diff :: "Point \<Rightarrow> Point \<Rightarrow> Point" where
  "point_diff p q = (fst p - fst q, snd p - snd q)"

definition mousePressEvent :: "QMouseEvent \<Rightarrow> generator \<Rightarrow> generator" where
  "mousePressEvent event s =
     (if button event = LeftButton \<and> drawingImage s \<noteq> None
      then s\<lparr>drawing := True, lastPoint := point_diff (pos event) (area_pos s)\<rparr>
      else s)"

definition mouseMoveEvent :: "lib \<Rightarrow> QMouseEvent \<Rightarrow> generator \<Rightarrow> generator" where
  "mouseMoveEvent L event s =
     (if drawing s \<and> drawingImage s \<noteq> None then
        let currentPoint = point_diff (pos event) (area_pos s)
        in if rect_contains (area_width s) (area_height s) currentPoint then
             let img = drawLine L (deref s (drawingImage s)) (lastPoint s) currentPoint (fillColor s);
                 s1 = store (drawingImage s) img s;
                 s2 = s1\<lparr>lastPoint := currentPoint\<rparr>
             in s2\<lparr>area_pixmap := Some (deref s2 (drawingImage s2))\<rparr>
           else s
      else s)"

definition mouseReleaseEvent :: "QMouseEvent \<Rightarrow> generator \<Rightarrow> generator" where
  "mouseReleaseEvent event s =
     (if button event = LeftButton \<and> drawingImage s \<noteq> None then s\<lparr>drawing := False\<rparr> else s)"

definition mouseDoubleClickEvent :: "lib \<Rightarrow> QMouseEvent \<Rightarrow> generator \<Rightarrow> generator \<times> dialog list" where
  "mouseDoubleClickEvent L event s =
     (if drawingImage s \<noteq> None \<and> fillToolEnabled s then
        let point = point_diff (pos event) (area_pos s);
            x = fst point;
            y = snd point;
            msk = zeros (rows (page s) + 2) (cols (page s) + 2)
        in case floodFill L (page s) msk (x, y)
                  (case fillColor s of (r, g, b) \<Rightarrow> [r, g, b, 0]) of
             Inl what \<Rightarrow> (s, [Critical (''Failed to perform flood fill: '' @ what)])
           | Inr filled \<Rightarrow>
               let s1 = store (coloringPage s) filled s;
                   s2 = s1\<lparr>drawingImage := coloringPage s1\<rparr>;
                   s3 = s2\<lparr>area_pixmap := Some (deref s2 (drawingImage s2))\<rparr>
               in (commit s3, [])
      else (s, []))"

section \<open>Outline extraction\<close>

subsection \<open>The target size\<close>

text \<open>
  The size is computed in \<^verbatim>\<open>double\<close>. A finite double is a rational number, and every
  operation returns the exact result rounded to the nearest number with a 53-bit significand,
  ties to even. The operands here are quotients and products of sizes below \<open>2\<^sup>3\<^sup>1\<close>, far
  from the ends of the exponent range, so the exponent is not bounded in the model.
\<close>

definition log2floor :: "rat \<Rightarrow> int" where
  \<comment> \<open>for \<open>0 < x\<close>, the exponent \<open>e\<close> with \<open>2\<^sup>e \<le> x < 2\<^sup>e\<^sup>+\<^sup>1\<close>\<close>
  "log2floor x =
     (let (a, b) = quotient_of x;
          e = int (floorlog 2 (nat a)) - int (floorlog 2 (nat b))
      in if 2 powi e \<le> x then e else e - 1)"

definition rne :: "rat \<Rightarrow> int" where
  \<comment> \<open>the nearest integer, ties to even\<close>
  "rne y = (let n = \<lfloor>y\<rfloor>; f = y - of_int n
            in if f < 1 / 2 then n else if 1 / 2 < f then n + 1
               else if even n then n else n + 1)"

definition fl53 :: "rat \<Rightarrow> rat" where
  \<comment> \<open>rounding to \<^verbatim>\<open>double\<close>\<close>
  "fl53 x = (if x = 0 then 0
             else let u = 2 powi (log2floor \<bar>x\<bar> - 52)
                  in sgn x * of_int (rne (\<bar>x\<bar> / u)) * u)"

definition to_int :: "rat \<Rightarrow> int" where
  \<comment> \<open>\<^verbatim>\<open>static_cast<int>\<close>: truncation towards zero; out of the range of \<^verbatim>\<open>int\<close> the
      language leaves the result open, and the model takes the value the x86 conversion
      delivers\<close>
  "to_int x = (if - (2 ^ 31) - 1 < x \<and> x < 2 ^ 31 then sgn \<lfloor>x\<rfloor> * \<lfloor>\<bar>x\<bar>\<rfloor> else - (2 ^ 31))"

definition target_size :: "nat \<Rightarrow> nat \<Rightarrow> int \<Rightarrow> int \<Rightarrow> int \<times> int" where
  \<comment> \<open>lines 193 to 202 of \<^verbatim>\<open>generateColoringPage\<close>, for a photo of \<open>c\<close> columns and \<open>r\<close> rows\<close>
  "target_size c r maxWidth maxHeight =
     (let aspectRatio = fl53 (of_nat c / of_nat r);
          newWidth = maxWidth;
          newHeight = to_int (fl53 (of_int newWidth / aspectRatio))
      in if newHeight > maxHeight
         then (to_int (fl53 (of_int maxHeight * aspectRatio)), maxHeight)
         else (newWidth, newHeight))"

subsection \<open>Contours\<close>

definition LINE_8 :: int where "LINE_8 = 8"
definition LINE_AA :: int where "LINE_AA = 16"
definition FILLED :: int where "FILLED = - 1"

fun smooth_and_draw :: "lib \<Rightarrow> contour list \<Rightarrow> int \<Rightarrow> int \<Rightarrow> generator
    \<Rightarrow> generator \<times> (string + contour list)" where
  \<comment> \<open>the loop of \<^verbatim>\<open>postProcessContours\<close>: it writes \<^verbatim>\<open>coloringPage\<close> in place, and what it has
      written stays when a later call raises\<close>
  "smooth_and_draw L [] smoothingIterations thickness s = (s, Inr [])"
| "smooth_and_draw L (c # cs) smoothingIterations thickness s =
     (case approxPolyDP L c smoothingIterations of
        Inl what \<Rightarrow> (s, Inl what)
      | Inr c' \<Rightarrow>
          (case drawContours L (page s) c' [0, 0, 0, 0] thickness LINE_AA of
             Inl what \<Rightarrow> (s, Inl what)
           | Inr drawn \<Rightarrow>
               let s1 = store (coloringPage s) drawn s
               in (case morphologyEx L (page s1) (5, 5) of
                     Inl what \<Rightarrow> (s1, Inl what)
                   | Inr smoothed \<Rightarrow>
                       let s2 = store (coloringPage s1) smoothed s1
                       in (case smooth_and_draw L cs smoothingIterations thickness s2 of
                             (s3, Inl what) \<Rightarrow> (s3, Inl what)
                           | (s3, Inr cs') \<Rightarrow> (s3, Inr (c' # cs'))))))"

definition postProcessContours :: "lib \<Rightarrow> contour list \<Rightarrow> rat \<Rightarrow> int \<Rightarrow> int \<Rightarrow> generator
    \<Rightarrow> generator \<times> (string + contour list)" where
  "postProcessContours L contours minContourArea smoothingIterations thickness s =
     smooth_and_draw L (filter (\<lambda>c. \<not> contourArea L c < minContourArea) contours)
       smoothingIterations thickness s"

fun fill_contours :: "lib \<Rightarrow> raster \<Rightarrow> contour list \<Rightarrow> string + raster" where
  \<comment> \<open>lines 233 to 235: every contour filled into \<^verbatim>\<open>contourMask\<close>\<close>
  "fill_contours L m [] = Inr m"
| "fill_contours L m (c # cs) =
     (case drawContours L m c [255, 0, 0, 0] FILLED LINE_8 of
        Inl what \<Rightarrow> Inl what
      | Inr m' \<Rightarrow> fill_contours L m' cs)"

fun repair_gaps :: "lib \<Rightarrow> contour list \<Rightarrow> rat \<Rightarrow> generator \<Rightarrow> generator \<times> string option" where
  \<comment> \<open>lines 245 to 253: the contours below the threshold inpainted into \<^verbatim>\<open>coloringPage\<close>\<close>
  "repair_gaps L [] gapAreaThreshold s = (s, None)"
| "repair_gaps L (c # cs) gapAreaThreshold s =
     (if contourArea L c < gapAreaThreshold then
        (case drawContours L (Mat_fill (rows (page s)) (cols (page s)) 1 [0, 0, 0, 0]) c
                [255, 0, 0, 0] FILLED LINE_8 of
           Inl what \<Rightarrow> (s, Some what)
         | Inr gapMask \<Rightarrow>
             (case inpaint L (page s) gapMask of
                Inl what \<Rightarrow> (s, Some what)
              | Inr repaired \<Rightarrow>
                  repair_gaps L cs gapAreaThreshold (store (coloringPage s) repaired s)))
      else repair_gaps L cs gapAreaThreshold s)"

subsection \<open>The pipeline\<close>

definition QWIDGETSIZE_MAX :: int where "QWIDGETSIZE_MAX = 16777215"

definition setFixedSize :: "int \<Rightarrow> int \<Rightarrow> generator \<Rightarrow> generator" where
  \<comment> \<open>\<^verbatim>\<open>drawingArea->setFixedSize(w, h)\<close>: the label takes the size at once, within the bounds
      Qt has for every widget\<close>
  "setFixedSize w h s =
     s\<lparr>area_width := min QWIDGETSIZE_MAX (max 0 w), area_height := min QWIDGETSIZE_MAX (max 0 h)\<rparr>"

definition contour_mask :: "lib \<Rightarrow> raster \<Rightarrow> contour list \<Rightarrow> string + raster" where
  \<comment> \<open>lines 232 to 238: \<^verbatim>\<open>contourMask\<close>, the contours filled and then closed\<close>
  "contour_mask L p contours =
     (case fill_contours L (Mat_fill (rows p) (cols p) 1 [0, 0, 0, 0]) contours of
        Inl what \<Rightarrow> Inl what
      | Inr contourMask \<Rightarrow> morphologyEx L contourMask (5, 5))"

definition intersect :: "lib \<Rightarrow> contour list \<Rightarrow> generator \<Rightarrow> generator \<times> string option" where
  \<comment> \<open>lines 232 to 239: \<^verbatim>\<open>coloringPage\<close> becomes its intersection with \<^verbatim>\<open>contourMask\<close>\<close>
  "intersect L contours s =
     (case contour_mask L (page s) contours of
        Inl what \<Rightarrow> (s, Some what)
      | Inr contourMask \<Rightarrow>
          (case bitwise_and (page s) contourMask of
             Inl what \<Rightarrow> (s, Some what)
           | Inr intersected \<Rightarrow> (store (coloringPage s) intersected s, None)))"

definition draw_strokes :: "raster \<Rightarrow> raster \<Rightarrow> generator \<Rightarrow> generator \<times> string option" where
  \<comment> \<open>lines 241 and 242: \<^verbatim>\<open>coloringPage\<close> is assigned a new white raster of the size of the
      photo, and the pixels of \<^verbatim>\<open>binaryImage\<close> that are set are painted black\<close>
  "draw_strokes img binaryImage s =
     (let (white, s1) = alloc (Mat_fill (rows img) (cols img) 3 [255, 255, 255, 0]) s;
          s2 = s1\<lparr>coloringPage := white\<rparr>
      in case setTo (page s2) [0, 0, 0, 0] binaryImage of
           Inl what \<Rightarrow> (s2, Some what)
         | Inr strokes \<Rightarrow> (store (coloringPage s2) strokes s2, None))"

definition finish :: "raster \<Rightarrow> generator \<Rightarrow> generator" where
  \<comment> \<open>lines 255 to 260: the commit, the new \<^verbatim>\<open>QImage\<close>, the size of the label and of the window\<close>
  "finish img s =
     (let s1 = commit s;
          s2 = s1\<lparr>drawingImage := coloringPage s1\<rparr>;
          s3 = setFixedSize (int (cols img)) (int (rows img)) s2
      in s3\<lparr>min_size := (int (cols img), int (rows img))\<rparr>)"

definition render :: "lib \<Rightarrow> raster \<Rightarrow> raster \<Rightarrow> contour list \<Rightarrow> generator
    \<Rightarrow> generator \<times> string option" where
  \<comment> \<open>lines 232 to 260\<close>
  "render L img binaryImage contours s =
     (case intersect L contours s of
        (s1, Some what) \<Rightarrow> (s1, Some what)
      | (s1, None) \<Rightarrow>
          (case draw_strokes img binaryImage s1 of
             (s2, Some what) \<Rightarrow> (s2, Some what)
           | (s2, None) \<Rightarrow>
               (case repair_gaps L contours 50 s2 of
                  (s3, Some what) \<Rightarrow> (s3, Some what)
                | (s3, None) \<Rightarrow> (finish img s3, None))))"

definition fit :: "lib \<Rightarrow> raster \<Rightarrow> generator \<Rightarrow> generator \<times> (string + raster)" where
  \<comment> \<open>lines 193 to 208: the photo resized to the target size, the label fixed to that size, and
      the photo resized to the size of the label\<close>
  "fit L image0 s =
     (let maxWidth = area_width s;
          maxHeight = area_height s;
          (newWidth, newHeight) = target_size (cols image0) (rows image0) maxWidth maxHeight
      in case resize L image0 (newWidth, newHeight) of
           Inl what \<Rightarrow> (s, Inl what)
         | Inr image1 \<Rightarrow>
             let s1 = setFixedSize newWidth newHeight s
             in (s1, resize L image1 (area_width s1, area_height s1)))"

definition masks :: "lib \<Rightarrow> raster \<Rightarrow> string + raster \<times> raster" where
  \<comment> \<open>lines 212 to 223: \<^verbatim>\<open>binaryImage\<close> and \<^verbatim>\<open>erodedImage\<close>\<close>
  "masks L img =
     (case cvtColor L img of
        Inl what \<Rightarrow> Inl what
      | Inr grayscale \<Rightarrow>
     (case adaptiveThreshold L grayscale of
        Inl what \<Rightarrow> Inl what
      | Inr binaryImage \<Rightarrow>
     (case dilate L binaryImage (30, 30) of
        Inl what \<Rightarrow> Inl what
      | Inr dilatedImage \<Rightarrow>
     (case erode L dilatedImage (30, 30) of
        Inl what \<Rightarrow> Inl what
      | Inr erodedImage \<Rightarrow> Inr (binaryImage, erodedImage)))))"

definition pipeline :: "lib \<Rightarrow> raster \<Rightarrow> generator \<Rightarrow> generator \<times> string option" where
  \<comment> \<open>the body of the \<^verbatim>\<open>try\<close> block; a state that was written before a call raised stays
      written\<close>
  "pipeline L image0 s =
     (case fit L image0 s of
        (s1, Inl what) \<Rightarrow> (s1, Some what)
      | (s1, Inr img) \<Rightarrow>
     (case masks L img of
        Inl what \<Rightarrow> (s1, Some what)
      | Inr (binaryImage, erodedImage) \<Rightarrow>
          let (cp, s2) = alloc erodedImage s1;
              s3 = s2\<lparr>coloringPage := cp\<rparr>
          in
     (case findContours L (page s3) of
        Inl what \<Rightarrow> (s3, Some what)
      | Inr contours0 \<Rightarrow>
     (case postProcessContours L contours0 150 30 1000 s3 of
        (s4, Inl what) \<Rightarrow> (s4, Some what)
      | (s4, Inr contours) \<Rightarrow> render L img binaryImage contours s4))))"

definition generateColoringPage :: "lib \<Rightarrow> string \<Rightarrow> generator \<Rightarrow> generator \<times> dialog list" where
  "generateColoringPage L imagePath s =
     (let img = imread L imagePath
      in if empty_raster img then (s, [Critical ''Failed to load the image.''])
         else (case pipeline L img s of
                 (s', Some what) \<Rightarrow> (s', [Critical (''Failed to generate coloring page: '' @ what)])
               | (s', None) \<Rightarrow> (s', [])))"

definition browseImage :: "lib \<Rightarrow> string \<Rightarrow> generator \<Rightarrow> generator \<times> dialog list" where
  \<comment> \<open>\<open>imagePath\<close> is what the file dialog returns, empty when it is cancelled\<close>
  "browseImage L imagePath s = (if imagePath \<noteq> [] then generateColoringPage L imagePath s else (s, []))"

definition saveImage :: "lib \<Rightarrow> string \<Rightarrow> generator \<Rightarrow> generator \<times> dialog list" where
  "saveImage L savePath s =
     (if savePath \<noteq> [] then
        (if drawingImage s \<noteq> None \<and> save L (deref s (drawingImage s)) savePath
         then (s, [Information ''Image saved successfully.''])
         else (s, [Critical ''Failed to save the image.'']))
      else (s, []))"

definition setFillColor :: "byte \<times> byte \<times> byte \<Rightarrow> generator \<Rightarrow> generator" where
  "setFillColor color s = s\<lparr>fillColor := color\<rparr>"

definition toggleFillTool :: "bool \<Rightarrow> generator \<Rightarrow> generator" where
  "toggleFillTool checked s = s\<lparr>fillToolEnabled := checked\<rparr>"

subsection \<open>The event loop\<close>

datatype event =
    MousePress QMouseEvent
  | MouseMove QMouseEvent
  | MouseRelease QMouseEvent
  | MouseDoubleClick QMouseEvent
  | Browse string
  | Save string
  | ColorPicked "byte \<times> byte \<times> byte"
  | FillToggled bool
  | UndoAction

fun handle :: "lib \<Rightarrow> event \<Rightarrow> generator \<Rightarrow> generator \<times> dialog list" where
  "handle L (MousePress e) s = (mousePressEvent e s, [])"
| "handle L (MouseMove e) s = (mouseMoveEvent L e s, [])"
| "handle L (MouseRelease e) s = (mouseReleaseEvent e s, [])"
| "handle L (MouseDoubleClick e) s = mouseDoubleClickEvent L e s"
| "handle L (Browse imagePath) s = browseImage L imagePath s"
| "handle L (Save savePath) s = saveImage L savePath s"
| "handle L (ColorPicked color) s = (setFillColor color s, [])"
| "handle L (FillToggled checked) s = (toggleFillTool checked s, [])"
| "handle L UndoAction s = (undoLastAction s, [])"

inductive reachable :: "lib \<Rightarrow> generator \<Rightarrow> bool" for L :: lib where
  start: "0 \<le> w \<Longrightarrow> 0 \<le> h \<Longrightarrow> reachable L (initial ap w h lp fc ft)"
| after: "reachable L s \<Longrightarrow> reachable L (fst (handle L e s))"

subsection \<open>Runs\<close>

fun run :: "lib \<Rightarrow> event list \<Rightarrow> generator \<Rightarrow> generator" where
  "run L [] s = s"
| "run L (e # es) s = run L es (fst (handle L e s))"

definition pointer_drag :: "event \<Rightarrow> bool" where
  \<comment> \<open>the events of a freehand gesture\<close>
  "pointer_drag e = (case e of MousePress _ \<Rightarrow> True | MouseMove _ \<Rightarrow> True
                      | MouseRelease _ \<Rightarrow> True | _ \<Rightarrow> False)"

definition fill_call :: "lib \<Rightarrow> QMouseEvent \<Rightarrow> generator \<Rightarrow> string + raster" where
  \<comment> \<open>the call of \<^verbatim>\<open>cv::floodFill\<close> that \<^verbatim>\<open>mouseDoubleClickEvent\<close> makes\<close>
  "fill_call L event s =
     floodFill L (page s) (zeros (rows (page s) + 2) (cols (page s) + 2))
       (point_diff (pos event) (area_pos s))
       (case fillColor s of (r, g, b) \<Rightarrow> [r, g, b, 0])"

section \<open>Invariants of the store\<close>

definition well_formed :: "generator \<Rightarrow> bool" where
  \<comment> \<open>every snapshot has a buffer of its own, apart from the working raster and from the
      \<^verbatim>\<open>QImage\<close>; there is a \<^verbatim>\<open>QImage\<close> exactly when there is a snapshot\<close>
  "well_formed s \<longleftrightarrow>
     (\<forall>m \<in> set (coloringPageHistory s). \<exists>a. m = Some a \<and> a < fresh s) \<and>
     distinct (coloringPageHistory s) \<and>
     coloringPage s \<notin> set (coloringPageHistory s) \<and>
     drawingImage s \<notin> set (coloringPageHistory s) \<and>
     (\<forall>a. coloringPage s = Some a \<longrightarrow> a < fresh s) \<and>
     (\<forall>a. drawingImage s = Some a \<longrightarrow> a < fresh s) \<and>
     (drawingImage s \<noteq> None \<longrightarrow> coloringPage s \<noteq> None) \<and>
     (drawingImage s = None \<longleftrightarrow> coloringPageHistory s = [])"

definition page_write :: "generator \<Rightarrow> generator \<Rightarrow> bool" where
  \<comment> \<open>nothing but the buffer of the working raster was written\<close>
  "page_write s s' \<longleftrightarrow>
     (\<exists>h. s' = s\<lparr>heap := h\<rparr> \<and> length h = length (heap s) \<and>
          (\<forall>a. coloringPage s \<noteq> Some a \<longrightarrow> h ! a = heap s ! a))"

definition grows :: "generator \<Rightarrow> generator \<Rightarrow> bool" where
  \<comment> \<open>the history is the same, and of the old buffers only those of the working raster and of
      the \<^verbatim>\<open>QImage\<close> were written\<close>
  "grows s s' \<longleftrightarrow>
     fresh s \<le> fresh s' \<and>
     (\<forall>a < fresh s. coloringPage s \<noteq> Some a \<longrightarrow> drawingImage s \<noteq> Some a
        \<longrightarrow> heap s' ! a = heap s ! a) \<and>
     coloringPageHistory s' = coloringPageHistory s \<and>
     drawingImage s' = drawingImage s \<and>
     (coloringPage s' = coloringPage s \<or>
      (\<exists>a. coloringPage s' = Some a \<and> fresh s \<le> a \<and> a < fresh s'))"

section \<open>Region fill\<close>

text \<open>
  \<^verbatim>\<open>cv::floodFill\<close> is OpenCV's. The handler calls it with a zero mask two rows and two columns
  larger than the raster, no tolerance and the default connectivity.
\<close>

definition in_bounds :: "raster \<Rightarrow> Point \<Rightarrow> bool" where
  "in_bounds r p \<longleftrightarrow> 0 \<le> fst p \<and> fst p < int (cols r) \<and> 0 \<le> snd p \<and> snd p < int (rows r)"

definition index :: "raster \<Rightarrow> Point \<Rightarrow> nat" where
  "index r p = nat (snd p) * cols r + nat (fst p)"

definition neighbours :: "raster \<Rightarrow> nat \<Rightarrow> nat list" where
  \<comment> \<open>the pixels left, right, above and below\<close>
  "neighbours r i =
     (let x = i mod cols r; y = i div cols r
      in (if 0 < x then [i - 1] else []) @ (if x + 1 < cols r then [i + 1] else []) @
         (if 0 < y then [i - cols r] else []) @ (if y + 1 < rows r then [i + cols r] else []))"

definition spread :: "raster \<Rightarrow> pixel \<Rightarrow> nat list \<Rightarrow> nat list" where
  \<comment> \<open>one step of region growing: the pixels of colour \<open>c\<close> next to the region join it\<close>
  "spread r c S =
     filter (\<lambda>j. j \<in> set S \<or> (pixels r ! j = c \<and> (\<exists>i \<in> set S. j \<in> set (neighbours r i))))
       [0..<length (pixels r)]"

definition region :: "raster \<Rightarrow> nat \<Rightarrow> nat list" where
  \<comment> \<open>the region of the seed: as many steps as there are pixels, after which it grows no more\<close>
  "region r i = ((spread r (pixels r ! i)) ^^ length (pixels r)) [i]"

definition flood_fill :: "raster \<Rightarrow> raster \<Rightarrow> Point \<Rightarrow> Scalar \<Rightarrow> string + raster" where
  \<comment> \<open>Modelled from the spec: \<^verbatim>\<open>cv::floodFill\<close>, which is not part of the repository. Section 4.3
      has the region of pixels connected to the seed and enclosed by the same strokes recoloured
      to the fill colour, a fault for a seed out of bounds or a malformed mask, and nothing
      written on a fault; the glossary has region growing bounded by connectivity and barrier
      pixels. The region is the 4-connected set of pixels of the seed's colour, so a stroke
      pixel, of another colour, is a barrier.\<close>
  "flood_fill r msk seed newVal =
     (if \<not> in_bounds r seed then Inl ''Seed point is outside of image''
      else if \<not> (rows msk = rows r + 2 \<and> cols msk = cols r + 2 \<and> chans msk = 1)
      then Inl ''mask size''
      else let S = region r (index r seed)
           in Inr (r\<lparr>pixels := map (\<lambda>j. if j \<in> set S then take (chans r) newVal else pixels r ! j)
                                  [0..<length (pixels r)]\<rparr>))"

section \<open>A small library for running the model\<close>

text \<open>
  To run the model on a photo the library operations need values. The threshold, the
  morphology, the grey conversion and the contour area below compute what OpenCV documents for
  the arguments the pipeline passes; the resize is nearest-neighbour, which is the identity
  when the size does not change; the contour tracer returns the bounding rectangle of the
  foreground, which is its outer contour when the foreground is a rectangle; the polygon
  approximation, the contour painter, the inpainting and the line painter are stand-ins.
\<close>

definition sample :: "raster \<Rightarrow> int \<Rightarrow> int \<Rightarrow> pixel" where
  \<comment> \<open>the pixel at column \<open>x\<close> and row \<open>y\<close>, the border replicated\<close>
  "sample r x y =
     pixels r ! (nat (max 0 (min (int (rows r) - 1) y)) * cols r
                 + nat (max 0 (min (int (cols r) - 1) x)))"

definition coords :: "raster \<Rightarrow> Point list" where
  "coords r = map (\<lambda>j. (int (j mod cols r), int (j div cols r))) [0..<rows r * cols r]"

definition resize_nearest :: "raster \<Rightarrow> int \<times> int \<Rightarrow> string + raster" where
  "resize_nearest r sz =
     (case sz of (w, h) \<Rightarrow>
        if w \<le> 0 \<or> h \<le> 0 \<or> empty_raster r then Inl ''resize: empty size''
        else Inr \<lparr>rows = nat h, cols = nat w, chans = chans r,
                  pixels = map (\<lambda>j. sample r (int ((j mod nat w) * cols r div nat w))
                                              (int ((j div nat w) * rows r div nat h)))
                             [0..<nat h * nat w]\<rparr>)"

definition gray :: "pixel \<Rightarrow> pixel" where
  \<comment> \<open>\<^verbatim>\<open>COLOR_BGR2GRAY\<close> on bytes: the weights 0.114, 0.587 and 0.299 in 14-bit fixed point\<close>
  "gray p = [of_nat ((unat (p ! 0) * 1868 + unat (p ! 1) * 9617 + unat (p ! 2) * 4899 + 8192)
                     div 16384)]"

definition bgr2gray :: "raster \<Rightarrow> string + raster" where
  "bgr2gray r = (if chans r = 3 then Inr (r\<lparr>chans := 1, pixels := map gray (pixels r)\<rparr>)
                 else Inl ''cvtColor: channels'')"

definition box_mean :: "raster \<Rightarrow> int \<Rightarrow> int \<Rightarrow> int" where
  \<comment> \<open>the mean of the 15 by 15 block around the pixel, rounded to the nearest integer\<close>
  "box_mean r x y =
     (2 * (\<Sum>dy \<leftarrow> [-7..7]. \<Sum>dx \<leftarrow> [-7..7]. uint (hd (sample r (x + dx) (y + dy)))) + 225)
     div 450"

definition threshold_mean_inv :: "raster \<Rightarrow> string + raster" where
  \<comment> \<open>\<^verbatim>\<open>ADAPTIVE_THRESH_MEAN_C\<close>, \<^verbatim>\<open>THRESH_BINARY_INV\<close>, block 15, offset 10: a pixel is set when
      it is darker than the mean of its block by 10 or more\<close>
  "threshold_mean_inv r =
     (if chans r = 1 then
        Inr (r\<lparr>pixels := map (\<lambda>(x, y). if uint (hd (sample r x y)) - box_mean r x y \<le> - 10
                                         then [255] else [0]) (coords r)\<rparr>)
      else Inl ''adaptiveThreshold: channels'')"

definition window :: "raster \<Rightarrow> nat \<times> nat \<Rightarrow> Point \<Rightarrow> int list" where
  \<comment> \<open>the bytes under a rectangular kernel anchored at its centre; beyond the border there is
      nothing\<close>
  "window r k p =
     (case k of (kw, kh) \<Rightarrow> case p of (x, y) \<Rightarrow>
        [uint (hd (sample r x' y')).
           (x', y') \<leftarrow> coords r,
           x - int (kw div 2) \<le> x' \<and> x' < x - int (kw div 2) + int kw \<and>
           y - int (kh div 2) \<le> y' \<and> y' < y - int (kh div 2) + int kh])"

definition dilate_rect :: "raster \<Rightarrow> nat \<times> nat \<Rightarrow> string + raster" where
  "dilate_rect r k = Inr (r\<lparr>pixels := map (\<lambda>p. [of_int (fold max (window r k p) 0)]) (coords r)\<rparr>)"

definition erode_rect :: "raster \<Rightarrow> nat \<times> nat \<Rightarrow> string + raster" where
  "erode_rect r k = Inr (r\<lparr>pixels := map (\<lambda>p. [of_int (fold min (window r k p) 255)]) (coords r)\<rparr>)"

definition close_rect :: "raster \<Rightarrow> nat \<times> nat \<Rightarrow> string + raster" where
  \<comment> \<open>\<^verbatim>\<open>MORPH_CLOSE\<close>: dilation, then erosion\<close>
  "close_rect r k = (case dilate_rect r k of Inl what \<Rightarrow> Inl what | Inr d \<Rightarrow> erode_rect d k)"

definition bounding_box :: "Point list \<Rightarrow> contour" where
  "bounding_box ps =
     (let xs = map fst ps; ys = map snd ps;
          x0 = fold min xs (hd xs); x1 = fold max xs (hd xs);
          y0 = fold min ys (hd ys); y1 = fold max ys (hd ys)
      in [(x0, y0), (x0, y1), (x1, y1), (x1, y0)])"

definition outer_box :: "raster \<Rightarrow> string + contour list" where
  "outer_box r =
     (let ps = filter (\<lambda>(x, y). nonzero (sample r x y)) (coords r)
      in Inr (if ps = [] then [] else [bounding_box ps]))"

definition shoelace :: "contour \<Rightarrow> rat" where
  \<comment> \<open>\<^verbatim>\<open>cv::contourArea\<close>: the area of the polygon\<close>
  "shoelace c = \<bar>of_int (\<Sum>((x, y), (x', y')) \<leftarrow> zip c (rotate1 c). x * y' - x' * y)\<bar> / 2"

definition paint_box :: "raster \<Rightarrow> contour \<Rightarrow> Scalar \<Rightarrow> int \<Rightarrow> int \<Rightarrow> string + raster" where
  "paint_box r c v thickness lineType =
     (if c = [] then Inr r
      else case bounding_box c of
        [(x0, y0), _, (x1, y1), _] \<Rightarrow>
          Inr (r\<lparr>pixels := map (\<lambda>((x, y), p). if x0 \<le> x \<and> x \<le> x1 \<and> y0 \<le> y \<and> y \<le> y1
                                              then take (chans r) v else p)
                                 (zip (coords r) (pixels r))\<rparr>)
      | _ \<Rightarrow> Inr r)"

definition paint_ends :: "raster \<Rightarrow> Point \<Rightarrow> Point \<Rightarrow> byte \<times> byte \<times> byte \<Rightarrow> raster" where
  \<comment> \<open>the two ends of the segment, which every line from \<open>p\<close> to \<open>q\<close> paints\<close>
  "paint_ends r p q color =
     r\<lparr>pixels := map (\<lambda>(xy, old). if xy = p \<or> xy = q
                                    then (case color of (cr, cg, cb) \<Rightarrow> take (chans r) [cr, cg, cb])
                                    else old)
                     (zip (coords r) (pixels r))\<rparr>"

definition photo :: raster where
  \<comment> \<open>a photo of two pixels: a black one beside a white one\<close>
  "photo = \<lparr>rows = 1, cols = 2, chans = 3, pixels = [[0, 0, 0], [255, 255, 255]]\<rparr>"

definition bench :: lib where
  "bench = \<lparr>imread = (\<lambda>path. if path = ''photo.png'' then photo else Mat_empty),
            resize = resize_nearest,
            cvtColor = bgr2gray,
            adaptiveThreshold = threshold_mean_inv,
            dilate = dilate_rect,
            erode = erode_rect,
            findContours = outer_box,
            contourArea = shoelace,
            approxPolyDP = (\<lambda>c epsilon. Inr c),
            drawContours = paint_box,
            morphologyEx = close_rect,
            inpaint = (\<lambda>src gapMask. Inr src),
            floodFill = flood_fill,
            drawLine = paint_ends,
            save = (\<lambda>img path. True)\<rparr>"

definition session :: generator where
  \<comment> \<open>a new session: a label of two by one pixels at the origin, red as the fill colour, the
      fill tool armed\<close>
  "session = initial (0, 0) 2 1 (0, 0) (255, 0, 0) True"

definition outline :: raster where
  "outline = \<lparr>rows = 1, cols = 2, chans = 3, pixels = [[0, 0, 0], [255, 255, 255]]\<rparr>"

definition loaded :: generator where
  \<comment> \<open>the session after the photo is loaded\<close>
  "loaded = \<lparr>heap = [zeros 1 2, outline, outline, outline],
     area_pos = (0, 0), area_width = 2, area_height = 1, area_pixmap = None,
     min_size = (2, 1), drawingImage = Some 1, drawing = False,
     lastPoint = (0, 0), coloringPage = Some 1,
     coloringPageHistory = [Some 3], fillColor = (255, 0, 0),
     fillToolEnabled = True\<rparr>"

definition click :: "Point \<Rightarrow> QMouseEvent" where
  "click p = \<lparr>button = LeftButton, pos = p\<rparr>"

definition hover :: "Point \<Rightarrow> QMouseEvent" where
  "hover p = \<lparr>button = NoButton, pos = p\<rparr>"

definition red_page :: raster where
  "red_page = \<lparr>rows = 1, cols = 2, chans = 3, pixels = [[0, 0, 0], [255, 0, 0]]\<rparr>"

definition painted :: generator where
  \<comment> \<open>the loaded session after a fill at the white pixel\<close>
  "painted = loaded\<lparr>heap := [zeros 1 2, red_page, outline, outline, red_page, red_page],
                    area_pixmap := Some red_page,
                    coloringPageHistory := [Some 3, Some 5]\<rparr>"

definition reloaded :: generator where
  \<comment> \<open>the loaded session after the photo is loaded once more\<close>
  "reloaded = loaded\<lparr>heap := heap loaded @ heap loaded,
                      drawingImage := Some 5, coloringPage := Some 5,
                      coloringPageHistory := [Some 3, Some 7]\<rparr>"

section \<open>The store and the history\<close>

lemma deref_store_other: "m \<noteq> m' \<Longrightarrow> deref (store m' r s) m = deref s m"
  by (cases m; cases m') (simp_all add: deref_def store_def fresh_def)

lemma deref_store_same: "a < fresh s \<Longrightarrow> deref (store (Some a) r s) (Some a) = r"
  by (simp add: deref_def store_def fresh_def)

lemma store_fields [simp]:
  "coloringPageHistory (store m r s) = coloringPageHistory s"
  "coloringPage (store m r s) = coloringPage s"
  "drawingImage (store m r s) = drawingImage s"
  "fresh (store m r s) = fresh s"
  "fillColor (store m r s) = fillColor s"
  "fillToolEnabled (store m r s) = fillToolEnabled s"
  "area_pos (store m r s) = area_pos s"
  by (simp_all add: store_def fresh_def split: option.splits)

lemma alloc_fields [simp]:
  "coloringPageHistory (snd (alloc r s)) = coloringPageHistory s"
  "coloringPage (snd (alloc r s)) = coloringPage s"
  "drawingImage (snd (alloc r s)) = drawingImage s"
  "fresh (snd (alloc r s)) = Suc (fresh s)"
  "fst (alloc r s) = Some (fresh s)"
  "fillColor (snd (alloc r s)) = fillColor s"
  "fillToolEnabled (snd (alloc r s)) = fillToolEnabled s"
  by (simp_all add: alloc_def fresh_def)

lemma fresh_update [simp]:
  "fresh (s\<lparr>coloringPage := c\<rparr>) = fresh s"
  "fresh (s\<lparr>coloringPageHistory := hs\<rparr>) = fresh s"
  "fresh (s\<lparr>drawingImage := d\<rparr>) = fresh s"
  "fresh (s\<lparr>area_pixmap := pm\<rparr>) = fresh s"
  "fresh (s\<lparr>area_width := w\<rparr>) = fresh s"
  "fresh (s\<lparr>area_height := h\<rparr>) = fresh s"
  "fresh (s\<lparr>min_size := ms\<rparr>) = fresh s"
  "fresh (s\<lparr>drawing := b\<rparr>) = fresh s"
  "fresh (s\<lparr>lastPoint := lp\<rparr>) = fresh s"
  "fresh (s\<lparr>fillColor := fc\<rparr>) = fresh s"
  "fresh (s\<lparr>fillToolEnabled := ft\<rparr>) = fresh s"
  "fresh (s\<lparr>heap := hp\<rparr>) = length hp"
  by (simp_all add: fresh_def)

lemma undo_pops:
  assumes "coloringPageHistory s = hs @ [h, t]"
  shows "undoLastAction s =
           (let (c, s2) = clone h (s\<lparr>coloringPageHistory := hs @ [h]\<rparr>)
            in s2\<lparr>coloringPage := c, drawingImage := c, area_pixmap := Some (deref s2 c)\<rparr>)"
  using assms
  by (simp add: undoLastAction_def Let_def butlast_append clone_def alloc_def deref_def fresh_def
           split: option.splits prod.splits)

lemma undo_noop: "length (coloringPageHistory s) \<le> 1 \<Longrightarrow> undoLastAction s = s"
  by (simp add: undoLastAction_def)

lemma two_or_more:
  assumes "1 < length (xs :: 'a list)"
  obtains hs h t where "xs = hs @ [h, t]"
proof -
  from assms have "xs \<noteq> []" by auto
  then obtain ys t where xs: "xs = ys @ [t]" by (metis rev_exhaust)
  with assms have "ys \<noteq> []" by auto
  then obtain hs h where "ys = hs @ [h]" by (metis rev_exhaust)
  with xs have "xs = hs @ [h, t]" by simp
  then show ?thesis by (rule that)
qed

lemma well_formed_undo: "well_formed s \<Longrightarrow> well_formed (undoLastAction s)"
proof (cases "1 < length (coloringPageHistory s)")
  case False
  then show "well_formed s \<Longrightarrow> ?thesis" by (simp add: undo_noop)
next
  case True
  then obtain hs h t where H: "coloringPageHistory s = hs @ [h, t]" by (rule two_or_more)
  assume "well_formed s"
  with H show ?thesis
    by (auto simp: undo_pops [OF H] well_formed_def clone_def alloc_def Let_def fresh_def
             split: option.splits prod.splits)
qed

lemma page_write_refl: "page_write s s"
  by (auto simp: page_write_def intro: exI [of _ "heap s"])

lemma page_write_store: "page_write s (store (coloringPage s) r s)"
  by (auto simp: page_write_def store_def split: option.splits intro: exI [of _ "heap s"])

lemma page_write_trans: "page_write s s1 \<Longrightarrow> page_write s1 s2 \<Longrightarrow> page_write s s2"
  by (auto simp: page_write_def)

lemma page_write_fields:
  assumes "page_write s s'"
  shows "coloringPageHistory s' = coloringPageHistory s" "coloringPage s' = coloringPage s"
    "drawingImage s' = drawingImage s" "fresh s' = fresh s"
    "fillColor s' = fillColor s" "fillToolEnabled s' = fillToolEnabled s"
    "area_width s' = area_width s" "area_height s' = area_height s"
  using assms by (auto simp: page_write_def fresh_def)

lemma page_write_deref:
  "page_write s s' \<Longrightarrow> m \<noteq> coloringPage s \<Longrightarrow> deref s' m = deref s m"
  by (auto simp: page_write_def deref_def fresh_def split: option.splits)

lemma smooth_and_draw_write:
  "smooth_and_draw L cs eps th s = (s', res) \<Longrightarrow> page_write s s'"
proof (induction cs arbitrary: s s' res)
  case Nil
  then show ?case by (simp add: page_write_refl)
next
  case (Cons c cs)
  show ?case
  proof (cases "approxPolyDP L c eps")
    case (Inl e)
    with Cons.prems show ?thesis by (simp add: page_write_refl)
  next
    case (Inr c')
    show ?thesis
    proof (cases "drawContours L (page s) c' [0, 0, 0, 0] th LINE_AA")
      case (Inl e)
      with Inr Cons.prems show ?thesis by (simp add: page_write_refl)
    next
      case drawn: (Inr p1)
      let ?s1 = "store (coloringPage s) p1 s"
      have w1: "page_write s ?s1" by (rule page_write_store)
      show ?thesis
      proof (cases "morphologyEx L (page ?s1) (5, 5)")
        case (Inl e)
        with Inr drawn Cons.prems w1 show ?thesis by (simp add: Let_def)
      next
        case closed: (Inr p2)
        let ?s2 = "store (coloringPage ?s1) p2 ?s1"
        have w2: "page_write s ?s2"
          using w1 page_write_store [of ?s1 p2] by (rule page_write_trans)
        obtain s3 r3 where rec: "smooth_and_draw L cs eps th ?s2 = (s3, r3)"
          by (cases "smooth_and_draw L cs eps th ?s2")
        then have w3: "page_write ?s2 s3" by (rule Cons.IH)
        from Inr drawn closed rec Cons.prems have "s' = s3"
          by (auto simp: Let_def split: sum.splits)
        with w2 w3 show ?thesis by (auto intro: page_write_trans)
      qed
    qed
  qed
qed

lemma repair_gaps_write:
  "repair_gaps L cs th s = (s', res) \<Longrightarrow> page_write s s'"
proof (induction cs arbitrary: s)
  case Nil
  then show ?case by (simp add: page_write_refl)
next
  case (Cons c cs)
  show ?case
  proof (cases "contourArea L c < th")
    case False
    with Cons show ?thesis by simp
  next
    case True
    let ?m = "drawContours L (Mat_fill (rows (page s)) (cols (page s)) 1 [0, 0, 0, 0]) c
                [255, 0, 0, 0] FILLED LINE_8"
    show ?thesis
    proof (cases ?m)
      case (Inl e)
      with True Cons.prems show ?thesis by (simp add: page_write_refl)
    next
      case gm: (Inr gapMask)
      show ?thesis
      proof (cases "inpaint L (page s) gapMask")
        case (Inl e)
        with True gm Cons.prems show ?thesis by (simp add: page_write_refl)
      next
        case (Inr repaired)
        with True gm Cons.prems
        have "repair_gaps L cs th (store (coloringPage s) repaired s) = (s', res)" by simp
        then have "page_write (store (coloringPage s) repaired s) s'" by (rule Cons.IH)
        with page_write_store [of s repaired] show ?thesis by (rule page_write_trans)
      qed
    qed
  qed
qed

lemma commit_Some:
  assumes "coloringPage s = Some a"
  shows "commit s = s\<lparr>heap := heap s @ [page s, page s],
                       coloringPageHistory := coloringPageHistory s @ [Some (Suc (fresh s))]\<rparr>"
  using assms
  by (simp add: commit_def addToColoringPageHistory_def clone_def alloc_def page_def deref_def
      fresh_def Let_def)

lemma commit_None: "coloringPage s = None \<Longrightarrow> commit s = s\<lparr>coloringPageHistory := coloringPageHistory s @ [None]\<rparr>"
  by (simp add: commit_def addToColoringPageHistory_def clone_def)

lemma grows_refl: "grows s s"
  by (simp add: grows_def)

lemma grows_trans:
  assumes 1: "grows s s1" and 2: "grows s1 s2"
  shows "grows s s2"
proof -
  from 1 have F1: "fresh s \<le> fresh s1"
    and K1: "\<And>a. a < fresh s \<Longrightarrow> coloringPage s \<noteq> Some a \<Longrightarrow> drawingImage s \<noteq> Some a
              \<Longrightarrow> heap s1 ! a = heap s ! a"
    and H1: "coloringPageHistory s1 = coloringPageHistory s"
    and D1: "drawingImage s1 = drawingImage s"
    and C1: "coloringPage s1 = coloringPage s \<or>
             (\<exists>a. coloringPage s1 = Some a \<and> fresh s \<le> a \<and> a < fresh s1)"
    by (simp_all add: grows_def)
  from 2 have F2: "fresh s1 \<le> fresh s2"
    and K2: "\<And>a. a < fresh s1 \<Longrightarrow> coloringPage s1 \<noteq> Some a \<Longrightarrow> drawingImage s1 \<noteq> Some a
              \<Longrightarrow> heap s2 ! a = heap s1 ! a"
    and H2: "coloringPageHistory s2 = coloringPageHistory s1"
    and D2: "drawingImage s2 = drawingImage s1"
    and C2: "coloringPage s2 = coloringPage s1 \<or>
             (\<exists>a. coloringPage s2 = Some a \<and> fresh s1 \<le> a \<and> a < fresh s2)"
    by (simp_all add: grows_def)
  have K: "heap s2 ! a = heap s ! a"
    if "a < fresh s" "coloringPage s \<noteq> Some a" "drawingImage s \<noteq> Some a" for a
  proof -
    have "coloringPage s1 \<noteq> Some a" using C1 that by auto
    moreover have "a < fresh s1" using F1 that by simp
    ultimately have "heap s2 ! a = heap s1 ! a" using K2 D1 that by simp
    with K1 that show ?thesis by simp
  qed
  have C: "coloringPage s2 = coloringPage s \<or>
           (\<exists>a. coloringPage s2 = Some a \<and> fresh s \<le> a \<and> a < fresh s2)"
  proof -
    consider "coloringPage s2 = coloringPage s1" "coloringPage s1 = coloringPage s"
      | a where "coloringPage s2 = coloringPage s1" "coloringPage s1 = Some a" "fresh s \<le> a" "a < fresh s1"
      | a where "coloringPage s2 = Some a" "fresh s1 \<le> a" "a < fresh s2"
      using C1 C2 by blast
    then show ?thesis
    proof cases
      case 1 then show ?thesis by simp
    next
      case 2 with F2 show ?thesis by simp
    next
      case 3 with F1 show ?thesis by simp
    qed
  qed
  show ?thesis
    unfolding grows_def using F1 F2 K H1 H2 D1 D2 C by simp
qed

lemma page_write_grows: "page_write s s' \<Longrightarrow> grows s s'"
  by (auto simp: page_write_def grows_def fresh_def)

lemma grows_area: "grows s s' \<Longrightarrow> grows s (setFixedSize w h s')"
  by (simp add: grows_def setFixedSize_def fresh_def)

lemma intersect_write: "intersect L cs s = (s', r) \<Longrightarrow> page_write s s'"
  by (auto simp: intersect_def page_write_refl page_write_store split: sum.splits)

lemma draw_strokes_grows:
  assumes "draw_strokes img bin s = (s', r)"
  shows "grows s s'" "coloringPage s' = Some (fresh s)" "fresh s' = Suc (fresh s)"
  using assms
  by (auto simp: draw_strokes_def alloc_def store_def grows_def fresh_def nth_append Let_def
      split: sum.splits)

lemma render_fails: "render L img bin cs s = (s', Some e) \<Longrightarrow> grows s s'"
  by (auto simp: render_def split: prod.splits option.splits
      dest!: intersect_write draw_strokes_grows(1) repair_gaps_write page_write_grows
      intro: grows_trans)

lemma render_succeeds:
  assumes "render L img bin cs s = (s', None)"
  shows "\<exists>s3. grows s s3 \<and> coloringPage s3 = Some (fresh s) \<and> fresh s3 = Suc (fresh s)
            \<and> s' = finish img s3"
proof -
  from assms obtain s1 s2 s3 where
    1: "intersect L cs s = (s1, None)" and 2: "draw_strokes img bin s1 = (s2, None)"
    and 3: "repair_gaps L cs 50 s2 = (s3, None)" and 4: "s' = finish img s3"
    by (auto simp: render_def split: prod.splits option.splits)
  note w1 = intersect_write [OF 1] and w3 = repair_gaps_write [OF 3]
  have "grows s s3"
    using page_write_grows [OF w1] draw_strokes_grows(1) [OF 2] page_write_grows [OF w3]
    by (blast intro: grows_trans)
  moreover have "coloringPage s3 = Some (fresh s)" "fresh s3 = Suc (fresh s)"
    using draw_strokes_grows(2,3) [OF 2] page_write_fields [OF w1] page_write_fields [OF w3]
    by simp_all
  ultimately show ?thesis using 4 by blast
qed

lemma grows_reassign:
  "grows s s1 \<Longrightarrow> grows s ((snd (alloc r s1))\<lparr>coloringPage := fst (alloc r s1)\<rparr>)"
  by (auto simp: grows_def alloc_def fresh_def nth_append)

lemma postProcess_write:
  "postProcessContours L cs a e t s = (s', res) \<Longrightarrow> page_write s s'"
  by (simp add: postProcessContours_def smooth_and_draw_write)

lemma fit_grows: "fit L img0 s = (s', r) \<Longrightarrow> grows s s'"
  by (auto simp: fit_def Let_def grows_refl grows_area split: prod.splits sum.splits)

lemma pipeline_cases:
  assumes "pipeline L img0 s = (s', res)"
  shows "(res \<noteq> None \<and> grows s s') \<or>
         (res = None \<and> (\<exists>s3 img a. grows s s3 \<and> coloringPage s3 = Some a \<and> fresh s \<le> a
              \<and> a < fresh s3 \<and> s' = finish img s3))"
proof -
  obtain s1 r1 where F: "fit L img0 s = (s1, r1)" by (cases "fit L img0 s")
  note g1 = fit_grows [OF F]
  show ?thesis
  proof (cases r1)
    case (Inl what)
    with F assms g1 show ?thesis by (auto simp: pipeline_def)
  next
    case (Inr img)
    show ?thesis
    proof (cases "masks L img")
      case (Inl what)
      with F Inr assms g1 show ?thesis by (auto simp: pipeline_def)
    next
      case M: (Inr bm)
      obtain binaryImage erodedImage where bm: "bm = (binaryImage, erodedImage)" by (cases bm)
      let ?s3 = "(snd (alloc erodedImage s1))\<lparr>coloringPage := fst (alloc erodedImage s1)\<rparr>"
      have g3: "grows s ?s3" by (rule grows_reassign [OF g1])
      show ?thesis
      proof (cases "findContours L (page ?s3)")
        case (Inl what)
        with F Inr M bm assms have "s' = ?s3" "res = Some what"
          by (auto simp: pipeline_def Let_def case_prod_beta)
        with g3 show ?thesis by simp
      next
        case C: (Inr contours0)
        obtain s4 r4 where pp: "postProcessContours L contours0 150 30 1000 ?s3 = (s4, r4)"
          by (cases "postProcessContours L contours0 150 30 1000 ?s3")
        note w4 = postProcess_write [OF pp]
        have g4: "grows s s4" using g3 page_write_grows [OF w4] by (rule grows_trans)
        have f4: "fresh s \<le> fresh s4" using g4 by (simp add: grows_def)
        show ?thesis
        proof (cases r4)
          case (Inl what)
          with F Inr M bm C pp assms have "s' = s4" "res = Some what"
            by (auto simp: pipeline_def Let_def case_prod_beta)
          with g4 show ?thesis by simp
        next
          case R4: (Inr contours)
          with F Inr M bm C pp assms
          have R: "render L img binaryImage contours s4 = (s', res)"
            by (auto simp: pipeline_def Let_def case_prod_beta)
          show ?thesis
          proof (cases res)
            case (Some e)
            with R have "grows s4 s'" by (simp add: render_fails)
            with g4 Some show ?thesis by (auto intro: grows_trans)
          next
            case None
            with R obtain s5 where "grows s4 s5" "coloringPage s5 = Some (fresh s4)"
              "fresh s5 = Suc (fresh s4)" "s' = finish img s5"
              using render_succeeds by blast
            with g4 f4 None show ?thesis
              by (auto intro!: exI [of _ s5] exI [of _ img] intro: grows_trans)
          qed
        qed
      qed
    qed
  qed
qed

lemma finish_Some:
  assumes "coloringPage s = Some a"
  shows "finish img s =
     s\<lparr>heap := heap s @ [page s, page s],
       coloringPageHistory := coloringPageHistory s @ [Some (Suc (fresh s))],
       drawingImage := Some a,
       area_width := min QWIDGETSIZE_MAX (max 0 (int (cols img))),
       area_height := min QWIDGETSIZE_MAX (max 0 (int (rows img))),
       min_size := (int (cols img), int (rows img))\<rparr>"
  using assms by (simp add: finish_def commit_Some setFixedSize_def Let_def)

lemma wf_hist:
  assumes "well_formed s" "m \<in> set (coloringPageHistory s)"
  obtains a where "m = Some a" "a < fresh s" "coloringPage s \<noteq> Some a" "drawingImage s \<noteq> Some a"
proof -
  from assms obtain a where a: "m = Some a" "a < fresh s"
    unfolding well_formed_def by blast
  from assms have "coloringPage s \<noteq> m" "drawingImage s \<noteq> m"
    unfolding well_formed_def by blast+
  with a show ?thesis by (auto intro: that)
qed

lemma well_formedI:
  assumes "\<And>m. m \<in> set (coloringPageHistory s) \<Longrightarrow> \<exists>a. m = Some a \<and> a < fresh s"
    and "distinct (coloringPageHistory s)"
    and "coloringPage s \<notin> set (coloringPageHistory s)"
    and "drawingImage s \<notin> set (coloringPageHistory s)"
    and "\<And>a. coloringPage s = Some a \<Longrightarrow> a < fresh s"
    and "\<And>a. drawingImage s = Some a \<Longrightarrow> a < fresh s"
    and "drawingImage s \<noteq> None \<Longrightarrow> coloringPage s \<noteq> None"
    and "drawingImage s = None \<longleftrightarrow> coloringPageHistory s = []"
  shows "well_formed s"
  unfolding well_formed_def using assms by blast

lemma well_formedD:
  assumes "well_formed s"
  shows "distinct (coloringPageHistory s)"
    and "coloringPage s \<notin> set (coloringPageHistory s)"
    and "drawingImage s \<notin> set (coloringPageHistory s)"
    and "coloringPage s = Some a \<Longrightarrow> a < fresh s"
    and "drawingImage s = Some a \<Longrightarrow> a < fresh s"
    and "drawingImage s \<noteq> None \<Longrightarrow> coloringPage s \<noteq> None"
    and "drawingImage s = None \<longleftrightarrow> coloringPageHistory s = []"
  using assms unfolding well_formed_def by blast+

lemma well_formed_grows:
  assumes wf: "well_formed s" and g: "grows s s'"
  shows "well_formed s'"
proof (rule well_formedI)
  from g have H: "coloringPageHistory s' = coloringPageHistory s"
    and D: "drawingImage s' = drawingImage s" and F: "fresh s \<le> fresh s'"
    and C: "coloringPage s' = coloringPage s \<or>
            (\<exists>a. coloringPage s' = Some a \<and> fresh s \<le> a \<and> a < fresh s')"
    by (simp_all add: grows_def)
  show "\<exists>a. m = Some a \<and> a < fresh s'" if "m \<in> set (coloringPageHistory s')" for m
    using that H F wf_hist [OF wf, of m] by (metis less_le_trans)
  show "distinct (coloringPageHistory s')" using H well_formedD(1) [OF wf] by simp
  show "coloringPage s' \<notin> set (coloringPageHistory s')"
  proof
    assume "coloringPage s' \<in> set (coloringPageHistory s')"
    then have in_s: "coloringPage s' \<in> set (coloringPageHistory s)" using H by simp
    then obtain a where a: "coloringPage s' = Some a" "a < fresh s" "coloringPage s \<noteq> Some a"
      by (rule wf_hist [OF wf])
    with C show False by auto
  qed
  show "drawingImage s' \<notin> set (coloringPageHistory s')"
    using H D well_formedD(3) [OF wf] by simp
  show "a < fresh s'" if "coloringPage s' = Some a" for a
    using that C F well_formedD(4) [OF wf, of a] by auto
  show "a < fresh s'" if "drawingImage s' = Some a" for a
    using that D F well_formedD(5) [OF wf, of a] by auto
  show "coloringPage s' \<noteq> None" if "drawingImage s' \<noteq> None"
    using that C D well_formedD(6) [OF wf] by auto
  show "drawingImage s' = None \<longleftrightarrow> coloringPageHistory s' = []"
    using H D well_formedD(7) [OF wf] by simp
qed

lemma snapshots_grows:
  assumes "well_formed s" "grows s s'"
  shows "snapshots s' = snapshots s"
proof -
  have "deref s' m = deref s m" if "m \<in> set (coloringPageHistory s)" for m
  proof -
    from assms(1) that obtain a where "m = Some a" "a < fresh s" "coloringPage s \<noteq> Some a"
      "drawingImage s \<noteq> Some a"
      by (rule wf_hist)
    with assms(2) show ?thesis by (simp add: grows_def deref_def)
  qed
  with assms(2) show ?thesis by (simp add: snapshots_def grows_def)
qed

lemma well_formed_finish:
  assumes wf: "well_formed s" and cp: "coloringPage s = Some a"
  shows "well_formed (finish img s)"
proof (rule well_formedI)
  note fs = finish_Some [OF cp, of img]
  have a: "a < fresh s" using wf cp by (rule well_formedD(4))
  show "\<exists>b. m = Some b \<and> b < fresh (finish img s)"
    if "m \<in> set (coloringPageHistory (finish img s))" for m
  proof (cases "m \<in> set (coloringPageHistory s)")
    case True
    then obtain b where "m = Some b" "b < fresh s" by (rule wf_hist [OF wf])
    then show ?thesis by (simp add: fs fresh_def)
  next
    case False
    with that show ?thesis by (simp add: fs fresh_def)
  qed
  have new: "Some (Suc (fresh s)) \<notin> set (coloringPageHistory s)"
  proof
    assume "Some (Suc (fresh s)) \<in> set (coloringPageHistory s)"
    then obtain b where "Some (Suc (fresh s)) = Some b" "b < fresh s" by (rule wf_hist [OF wf])
    then show False by simp
  qed
  then show "distinct (coloringPageHistory (finish img s))"
    using well_formedD(1) [OF wf] by (simp add: fs fresh_def)
  show "coloringPage (finish img s) \<notin> set (coloringPageHistory (finish img s))"
    using well_formedD(2) [OF wf] cp a by (simp add: fs fresh_def)
  show "drawingImage (finish img s) \<notin> set (coloringPageHistory (finish img s))"
    using well_formedD(2) [OF wf] cp a by (simp add: fs fresh_def)
  show "b < fresh (finish img s)" if "coloringPage (finish img s) = Some b" for b
    using that cp a by (simp add: fs fresh_def)
  show "b < fresh (finish img s)" if "drawingImage (finish img s) = Some b" for b
    using that cp a by (simp add: fs fresh_def)
  show "coloringPage (finish img s) \<noteq> None" using cp by (simp add: fs fresh_def)
  show "drawingImage (finish img s) = None \<longleftrightarrow> coloringPageHistory (finish img s) = []"
    by (simp add: fs fresh_def)
qed

lemma snapshots_finish:
  assumes wf: "well_formed s" and cp: "coloringPage s = Some a"
  shows "snapshots (finish img s) = snapshots s @ [page s]" "page (finish img s) = page s"
proof -
  note fs = finish_Some [OF cp, of img]
  have a: "a < fresh s" using wf cp by (rule well_formedD(4))
  have "deref (finish img s) m = deref s m" if "m \<in> set (coloringPageHistory s)" for m
  proof -
    from wf that obtain b where "m = Some b" "b < fresh s" by (rule wf_hist)
    then show ?thesis by (simp add: fs deref_def nth_append fresh_def)
  qed
  then show "snapshots (finish img s) = snapshots s @ [page s]"
    by (simp add: snapshots_def fs deref_def nth_append fresh_def)
  show "page (finish img s) = page s"
    using cp a by (simp add: fs deref_def page_def nth_append fresh_def)
qed

lemma generate_cases:
  assumes "generateColoringPage L path s = (s', ds)"
  shows "(ds \<noteq> [] \<and> grows s s') \<or>
         (ds = [] \<and> (\<exists>s3 img a. grows s s3 \<and> coloringPage s3 = Some a \<and> fresh s \<le> a
              \<and> a < fresh s3 \<and> s' = finish img s3))"
proof (cases "empty_raster (imread L path)")
  case True
  with assms show ?thesis by (auto simp: generateColoringPage_def grows_refl)
next
  case False
  obtain s1 r1 where P: "pipeline L (imread L path) s = (s1, r1)"
    by (cases "pipeline L (imread L path) s")
  from False P assms have "s' = s1" "ds = [] \<longleftrightarrow> r1 = None"
    by (auto simp: generateColoringPage_def Let_def split: option.splits)
  with pipeline_cases [OF P] show ?thesis by auto
qed

lemma well_formed_generate:
  assumes "well_formed s"
  shows "well_formed (fst (generateColoringPage L path s))"
proof -
  obtain s' ds where G: "generateColoringPage L path s = (s', ds)"
    by (cases "generateColoringPage L path s")
  from generate_cases [OF G] show ?thesis
  proof (elim disjE conjE exE)
    assume "grows s s'"
    with assms show ?thesis by (simp add: G well_formed_grows)
  next
    fix s3 img a
    assume "grows s s3" "coloringPage s3 = Some a" "s' = finish img s3"
    with assms show ?thesis by (simp add: G well_formed_grows well_formed_finish)
  qed
qed

lemma doubleClick_unarmed:
  "\<not> (drawingImage s \<noteq> None \<and> fillToolEnabled s) \<Longrightarrow> mouseDoubleClickEvent L event s = (s, [])"
  by (auto simp: mouseDoubleClickEvent_def)

lemma doubleClick_fault:
  assumes "drawingImage s \<noteq> None" "fillToolEnabled s" "fill_call L event s = Inl what"
  shows "mouseDoubleClickEvent L event s = (s, [Critical (''Failed to perform flood fill: '' @ what)])"
  using assms by (simp add: mouseDoubleClickEvent_def fill_call_def Let_def point_diff_def)

lemma doubleClick_filled:
  assumes "drawingImage s \<noteq> None" "fillToolEnabled s" "fill_call L event s = Inr filled"
    and "coloringPage s = Some a" "a < fresh s"
  shows "mouseDoubleClickEvent L event s =
     (s\<lparr>heap := (heap s)[a := filled] @ [filled, filled],
        coloringPageHistory := coloringPageHistory s @ [Some (Suc (fresh s))],
        drawingImage := Some a,
        area_pixmap := Some filled\<rparr>, [])"
  using assms
  by (simp add: mouseDoubleClickEvent_def fill_call_def Let_def point_diff_def store_def
      commit_Some page_def deref_def fresh_def)

lemma well_formed_doubleClick:
  assumes wf: "well_formed s"
  shows "well_formed (fst (mouseDoubleClickEvent L event s))"
proof (cases "drawingImage s \<noteq> None \<and> fillToolEnabled s")
  case False
  then show ?thesis using wf by (simp add: doubleClick_unarmed)
next
  case True
  then obtain a where cp: "coloringPage s = Some a"
    using well_formedD(6) [OF wf] by auto
  have a: "a < fresh s" using wf cp by (rule well_formedD(4))
  show ?thesis
  proof (cases "fill_call L event s")
    case (Inl what)
    with True wf show ?thesis by (simp add: doubleClick_fault)
  next
    case (Inr filled)
    note eq = doubleClick_filled [OF conjunct1 [OF True] conjunct2 [OF True] Inr cp a]
    let ?s' = "fst (mouseDoubleClickEvent L event s)"
    show ?thesis
    proof (rule well_formedI)
      show "\<exists>b. m = Some b \<and> b < fresh ?s'" if "m \<in> set (coloringPageHistory ?s')" for m
      proof (cases "m \<in> set (coloringPageHistory s)")
        case True
        then obtain b where "m = Some b" "b < fresh s" by (rule wf_hist [OF wf])
        then show ?thesis by (simp add: eq fresh_def)
      next
        case False
        with that show ?thesis by (simp add: eq fresh_def)
      qed
      have new: "Some (Suc (fresh s)) \<notin> set (coloringPageHistory s)"
      proof
        assume "Some (Suc (fresh s)) \<in> set (coloringPageHistory s)"
        then obtain b where "Some (Suc (fresh s)) = Some b" "b < fresh s" by (rule wf_hist [OF wf])
        then show False by simp
      qed
      then show "distinct (coloringPageHistory ?s')"
        using well_formedD(1) [OF wf] by (simp add: eq fresh_def)
      show "coloringPage ?s' \<notin> set (coloringPageHistory ?s')"
        using well_formedD(2) [OF wf] cp a by (simp add: eq fresh_def)
      show "drawingImage ?s' \<notin> set (coloringPageHistory ?s')"
        using well_formedD(2) [OF wf] cp a by (simp add: eq fresh_def)
      show "b < fresh ?s'" if "coloringPage ?s' = Some b" for b
        using that cp a by (simp add: eq fresh_def)
      show "b < fresh ?s'" if "drawingImage ?s' = Some b" for b
        using that cp a by (simp add: eq fresh_def)
      show "coloringPage ?s' \<noteq> None" using cp by (simp add: eq fresh_def)
      show "drawingImage ?s' = None \<longleftrightarrow> coloringPageHistory ?s' = []"
        by (simp add: eq fresh_def)
    qed
  qed
qed

lemma move_grows: "grows s (mouseMoveEvent L event s)"
  by (auto simp: mouseMoveEvent_def Let_def grows_def store_def fresh_def split: option.splits)

lemma well_formed_cong:
  assumes "coloringPageHistory s' = coloringPageHistory s" "coloringPage s' = coloringPage s"
    "drawingImage s' = drawingImage s" "fresh s' = fresh s"
  shows "well_formed s' = well_formed s"
  unfolding well_formed_def assms ..

lemma well_formed_handle:
  assumes "well_formed s"
  shows "well_formed (fst (handle L e s))"
proof (cases e)
  case (MousePress ev)
  have "well_formed (mousePressEvent ev s) = well_formed s"
    by (rule well_formed_cong) (simp_all add: mousePressEvent_def)
  with assms show ?thesis by (simp add: \<open>e = MousePress ev\<close>)
next
  case (MouseMove ev)
  with assms show ?thesis by (simp add: well_formed_grows [OF _ move_grows])
next
  case (MouseRelease ev)
  have "well_formed (mouseReleaseEvent ev s) = well_formed s"
    by (rule well_formed_cong) (simp_all add: mouseReleaseEvent_def)
  with assms show ?thesis by (simp add: \<open>e = MouseRelease ev\<close>)
next
  case (MouseDoubleClick ev)
  with assms show ?thesis by (simp add: well_formed_doubleClick)
next
  case (Browse path)
  with assms show ?thesis by (simp add: browseImage_def well_formed_generate)
next
  case (Save path)
  with assms show ?thesis by (simp add: saveImage_def)
next
  case (ColorPicked c)
  have "well_formed (setFillColor c s) = well_formed s"
    by (rule well_formed_cong) (simp_all add: setFillColor_def)
  with assms show ?thesis by (simp add: \<open>e = ColorPicked c\<close>)
next
  case (FillToggled b)
  have "well_formed (toggleFillTool b s) = well_formed s"
    by (rule well_formed_cong) (simp_all add: toggleFillTool_def)
  with assms show ?thesis by (simp add: \<open>e = FillToggled b\<close>)
next
  case UndoAction
  with assms show ?thesis by (simp add: well_formed_undo)
qed

lemma well_formed_initial: "well_formed (initial ap w h lp fc ft)"
  by (simp add: well_formed_def initial_def fresh_def)

lemma reachable_well_formed: "reachable L s \<Longrightarrow> well_formed s"
  by (induction rule: reachable.induct) (simp_all add: well_formed_initial well_formed_handle)

lemma undo_effect:
  assumes wf: "well_formed s" and H: "coloringPageHistory s = hs @ [h, t]"
  shows "coloringPageHistory (undoLastAction s) = hs @ [h]"
    and "snapshots (undoLastAction s) = butlast (snapshots s)"
    and "page (undoLastAction s) = deref s h"
proof -
  have "h \<in> set (coloringPageHistory s)" using H by simp
  then obtain a where a: "h = Some a" "a < fresh s" by (rule wf_hist [OF wf])
  have eq: "undoLastAction s =
      s\<lparr>heap := heap s @ [deref s h], coloringPageHistory := hs @ [h],
        coloringPage := Some (fresh s), drawingImage := Some (fresh s),
        area_pixmap := Some (deref s h)\<rparr>"
    using a by (simp add: undo_pops [OF H] clone_def alloc_def deref_def fresh_def nth_append)
  show "coloringPageHistory (undoLastAction s) = hs @ [h]" by (simp add: eq)
  have old: "deref (undoLastAction s) m = deref s m" if "m \<in> set (coloringPageHistory s)" for m
  proof -
    from wf that obtain b where "m = Some b" "b < fresh s" by (rule wf_hist)
    then show ?thesis by (simp add: eq deref_def fresh_def nth_append)
  qed
  have "snapshots (undoLastAction s) = map (deref s) (hs @ [h])"
    using old H by (simp add: snapshots_def eq)
  also have "\<dots> = butlast (snapshots s)" by (simp add: snapshots_def H butlast_append)
  finally show "snapshots (undoLastAction s) = butlast (snapshots s)" .
  show "page (undoLastAction s) = deref s h"
    by (simp add: eq page_def deref_def fresh_def)
qed

lemma history_handle:
  "coloringPageHistory (fst (handle L e s)) = coloringPageHistory s
   \<or> (\<exists>c. coloringPageHistory (fst (handle L e s)) = coloringPageHistory s @ [c])
   \<or> (e = UndoAction \<and> 1 < length (coloringPageHistory s)
       \<and> coloringPageHistory (fst (handle L e s)) = butlast (coloringPageHistory s))"
proof (cases e)
  case (MousePress ev)
  then show ?thesis by (simp add: mousePressEvent_def)
next
  case (MouseMove ev)
  then show ?thesis using move_grows [of s L ev] by (simp add: grows_def)
next
  case (MouseRelease ev)
  then show ?thesis by (simp add: mouseReleaseEvent_def)
next
  case (MouseDoubleClick ev)
  show ?thesis
  proof (cases "fill_call L ev s")
    case (Inl what)
    then show ?thesis using MouseDoubleClick
      by (auto simp: mouseDoubleClickEvent_def fill_call_def Let_def point_diff_def)
  next
    case (Inr filled)
    then show ?thesis using MouseDoubleClick
      by (auto simp: mouseDoubleClickEvent_def fill_call_def Let_def point_diff_def
          commit_def addToColoringPageHistory_def clone_def alloc_def split: option.splits)
  qed
next
  case (Browse path)
  obtain s' ds where G: "generateColoringPage L path s = (s', ds)"
    by (cases "generateColoringPage L path s")
  from generate_cases [OF G] have
    "coloringPageHistory s' = coloringPageHistory s
     \<or> (\<exists>c. coloringPageHistory s' = coloringPageHistory s @ [c])"
  proof (elim disjE conjE exE)
    assume "grows s s'"
    then show ?thesis by (simp add: grows_def)
  next
    fix s3 img a
    assume "grows s s3" "coloringPage s3 = Some a" "s' = finish img s3"
    then show ?thesis by (simp add: finish_Some grows_def)
  qed
  with Browse G show ?thesis by (auto simp: browseImage_def)
next
  case (Save path)
  then show ?thesis by (simp add: saveImage_def)
next
  case (ColorPicked c)
  then show ?thesis by (simp add: setFillColor_def)
next
  case (FillToggled b)
  then show ?thesis by (simp add: toggleFillTool_def)
next
  case UndoAction
  then show ?thesis by (simp add: undoLastAction_def Let_def clone_def alloc_def split: option.splits prod.splits)
qed

lemma step_nonempty:
  assumes ne: "coloringPageHistory s \<noteq> []"
  shows "coloringPageHistory (fst (handle L e s)) \<noteq> []"
  using history_handle [of L e s]
proof (elim disjE exE conjE)
  assume "1 < length (coloringPageHistory s)"
    "coloringPageHistory (fst (handle L e s)) = butlast (coloringPageHistory s)"
  then show ?thesis by (cases "coloringPageHistory s" rule: rev_cases) auto
qed (use ne in auto)

lemma run_nonempty:
  "coloringPageHistory s \<noteq> [] \<Longrightarrow> coloringPageHistory (run L es s) \<noteq> []"
  by (induction es arbitrary: s) (simp_all add: step_nonempty)

lemma same_heap_snapshots:
  assumes "heap s' = heap s" "coloringPageHistory s' = coloringPageHistory s"
  shows "snapshots s' = snapshots s"
proof -
  have "deref s' m = deref s m" for m
    using assms(1) by (simp add: deref_def fresh_def split: option.splits)
  with assms(2) show ?thesis by (simp add: snapshots_def)
qed

lemma doubleClick_snapshots:
  assumes wf: "well_formed s" and armed: "drawingImage s \<noteq> None" "fillToolEnabled s"
    and F: "fill_call L event s = Inr filled"
  shows "\<exists>c. coloringPageHistory (fst (mouseDoubleClickEvent L event s)) = coloringPageHistory s @ [c]"
    and "snapshots (fst (mouseDoubleClickEvent L event s)) = snapshots s @ [filled]"
    and "page (fst (mouseDoubleClickEvent L event s)) = filled"
    and "snd (mouseDoubleClickEvent L event s) = []"
proof -
  from armed obtain a where cp: "coloringPage s = Some a"
    using well_formedD(6) [OF wf] by auto
  have a: "a < fresh s" using wf cp by (rule well_formedD(4))
  note eq = doubleClick_filled [OF armed F cp a]
  show "\<exists>c. coloringPageHistory (fst (mouseDoubleClickEvent L event s)) = coloringPageHistory s @ [c]"
    by (simp add: eq)
  let ?s' = "fst (mouseDoubleClickEvent L event s)"
  have old: "deref ?s' m = deref s m" if "m \<in> set (coloringPageHistory s)" for m
  proof -
    from wf that obtain b where "m = Some b" "b < fresh s" "coloringPage s \<noteq> Some b"
      by (rule wf_hist)
    with cp show ?thesis by (simp add: eq deref_def fresh_def nth_append)
  qed
  have "map (deref ?s') (coloringPageHistory s) = map (deref s) (coloringPageHistory s)"
    by (rule map_cong [OF refl]) (rule old)
  moreover have "deref ?s' (Some (Suc (fresh s))) = filled"
    by (simp add: eq deref_def fresh_def nth_append)
  moreover have "coloringPageHistory ?s' = coloringPageHistory s @ [Some (Suc (fresh s))]"
    by (simp add: eq)
  ultimately show "snapshots ?s' = snapshots s @ [filled]"
    by (simp add: snapshots_def)
  show "page (fst (mouseDoubleClickEvent L event s)) = filled"
    using a by (simp add: eq page_def cp deref_def fresh_def nth_append)
  show "snd (mouseDoubleClickEvent L event s) = []" by (simp add: eq)
qed

lemma generate_snapshots:
  assumes wf: "well_formed s" and G: "generateColoringPage L path s = (s', ds)"
  shows "(ds \<noteq> [] \<and> coloringPageHistory s' = coloringPageHistory s \<and> snapshots s' = snapshots s)
       \<or> (ds = [] \<and> (\<exists>c. coloringPageHistory s' = coloringPageHistory s @ [c])
            \<and> snapshots s' = snapshots s @ [page s'])"
  using generate_cases [OF G]
proof (elim disjE conjE exE)
  assume ds: "ds \<noteq> []" and g: "grows s s'"
  have "snapshots s' = snapshots s" using wf g by (rule snapshots_grows)
  moreover have "coloringPageHistory s' = coloringPageHistory s" using g by (simp add: grows_def)
  ultimately show ?thesis using ds by blast
next
  fix s3 img a
  assume ds: "ds = []" and g: "grows s s3" and cp: "coloringPage s3 = Some a"
    and s': "s' = finish img s3"
  have wf3: "well_formed s3" using wf g by (rule well_formed_grows)
  have 1: "snapshots (finish img s3) = snapshots s3 @ [page s3]"
    and 2: "page (finish img s3) = page s3"
    using wf3 cp by (rule snapshots_finish)+
  have 3: "snapshots s3 = snapshots s" using wf g by (rule snapshots_grows)
  have 4: "coloringPageHistory s3 = coloringPageHistory s" using g by (simp add: grows_def)
  have "coloringPageHistory (finish img s3) = coloringPageHistory s3 @ [Some (Suc (fresh s3))]"
    by (simp add: finish_Some [OF cp])
  with 4 have 5: "\<exists>c. coloringPageHistory s' = coloringPageHistory s @ [c]"
    unfolding s' by simp
  have "snapshots s' = snapshots s @ [page s']"
    unfolding s' 1 2 3 ..
  with 5 ds show ?thesis by blast
qed

lemma quiet_frame:
  assumes "well_formed s" "pointer_drag e \<or> (\<exists>p. e = Save p) \<or> (\<exists>c. e = ColorPicked c)
     \<or> (\<exists>b. e = FillToggled b)"
  shows "coloringPageHistory (fst (handle L e s)) = coloringPageHistory s"
    and "snapshots (fst (handle L e s)) = snapshots s"
proof -
  have "grows s (fst (handle L e s))"
  proof (cases e)
    case (MousePress ev)
    then show ?thesis by (simp add: mousePressEvent_def grows_def fresh_def)
  next
    case (MouseMove ev)
    then show ?thesis by (simp add: move_grows)
  next
    case (MouseRelease ev)
    then show ?thesis by (simp add: mouseReleaseEvent_def grows_def fresh_def)
  next
    case (Save path)
    then show ?thesis by (simp add: saveImage_def grows_refl)
  next
    case (ColorPicked c)
    then show ?thesis by (simp add: setFillColor_def grows_def fresh_def)
  next
    case (FillToggled b)
    then show ?thesis by (simp add: toggleFillTool_def grows_def fresh_def)
  qed (use assms(2) in \<open>simp_all add: pointer_drag_def\<close>)
  then show "coloringPageHistory (fst (handle L e s)) = coloringPageHistory s"
    by (simp add: grows_def)
  show "snapshots (fst (handle L e s)) = snapshots s"
    using assms(1) \<open>grows s (fst (handle L e s))\<close> by (rule snapshots_grows)
qed

lemma handle_frame:
  assumes wf: "well_formed s"
  shows "(coloringPageHistory (fst (handle L e s)) = coloringPageHistory s
           \<and> snapshots (fst (handle L e s)) = snapshots s)
       \<or> ((\<exists>c. coloringPageHistory (fst (handle L e s)) = coloringPageHistory s @ [c])
           \<and> snapshots (fst (handle L e s)) = snapshots s @ [page (fst (handle L e s))])
       \<or> (e = UndoAction \<and> 1 < length (coloringPageHistory s)
           \<and> coloringPageHistory (fst (handle L e s)) = butlast (coloringPageHistory s)
           \<and> snapshots (fst (handle L e s)) = butlast (snapshots s)
           \<and> page (fst (handle L e s)) = last (butlast (snapshots s)))"
    (is "?same \<or> ?pushed \<or> ?popped")
proof -
  consider (quiet) "pointer_drag e \<or> (\<exists>p. e = Save p) \<or> (\<exists>c. e = ColorPicked c)
     \<or> (\<exists>b. e = FillToggled b)" | (fill) ev where "e = MouseDoubleClick ev"
    | (browse) path where "e = Browse path" | (undo) "e = UndoAction"
    by (cases e) (auto simp: pointer_drag_def)
  then show ?thesis
  proof cases
    case quiet
    with wf have ?same by (simp add: quiet_frame)
    then show ?thesis ..
  next
    case (fill ev)
    show ?thesis
    proof (cases "drawingImage s \<noteq> None \<and> fillToolEnabled s")
      case False
      then have ?same unfolding fill by (simp add: doubleClick_unarmed)
      then show ?thesis ..
    next
      case True
      then have armed: "drawingImage s \<noteq> None" "fillToolEnabled s" by simp_all
      show ?thesis
      proof (cases "fill_call L ev s")
        case (Inl what)
        have ?same unfolding fill by (simp add: doubleClick_fault [OF armed Inl])
        then show ?thesis ..
      next
        case (Inr filled)
        note d = doubleClick_snapshots [OF wf armed Inr]
        have ?pushed unfolding fill using d(1) by (simp add: d(2) d(3))
        then show ?thesis by blast
      qed
    qed
  next
    case (browse path)
    show ?thesis
    proof (cases "path = []")
      case True
      then have ?same unfolding browse by (simp add: browseImage_def)
      then show ?thesis ..
    next
      case False
      obtain s' ds where G: "generateColoringPage L path s = (s', ds)"
        by (cases "generateColoringPage L path s")
      have eq: "fst (handle L e s) = s'" unfolding browse using False G by (simp add: browseImage_def)
      from generate_snapshots [OF wf G] show ?thesis unfolding eq by blast
    qed
  next
    case undo
    show ?thesis
    proof (cases "1 < length (coloringPageHistory s)")
      case False
      then have ?same unfolding undo by (simp add: undo_noop)
      then show ?thesis ..
    next
      case True
      then obtain hs h t where H: "coloringPageHistory s = hs @ [h, t]" by (rule two_or_more)
      have l: "last (butlast (snapshots s)) = deref s h"
        by (simp add: snapshots_def H butlast_append)
      note u = undo_effect [OF wf H]
      have "coloringPageHistory (undoLastAction s) = butlast (coloringPageHistory s)"
        by (simp add: u(1) H butlast_append)
      with u(2,3) l True undo have ?popped by simp
      then show ?thesis by blast
    qed
  qed
qed

lemma reachable_run: "reachable L s \<Longrightarrow> reachable L (run L es s)"
  by (induction es arbitrary: s) (simp_all add: reachable.after)

lemma drag_frame:
  assumes "well_formed s" "\<forall>e \<in> set es. pointer_drag e"
  shows "coloringPageHistory (run L es s) = coloringPageHistory s \<and> snapshots (run L es s) = snapshots s"
  using assms
proof (induction es arbitrary: s)
  case Nil
  then show ?case by simp
next
  case (Cons e es)
  let ?s1 = "fst (handle L e s)"
  have wf1: "well_formed ?s1" using Cons.prems(1) by (rule well_formed_handle)
  have d: "pointer_drag e" and ds: "\<forall>e \<in> set es. pointer_drag e" using Cons.prems(2) by simp_all
  have step: "coloringPageHistory ?s1 = coloringPageHistory s" "snapshots ?s1 = snapshots s"
    using Cons.prems(1) d by (simp_all add: quiet_frame)
  from Cons.IH [OF wf1 ds] show ?case unfolding step by simp
qed

section \<open>Region fill is idempotent\<close>

lemma spread_keeps: "i \<in> set S \<Longrightarrow> i < length (pixels r) \<Longrightarrow> i \<in> set (spread r c S)"
  by (simp add: spread_def)

lemma spread_colour:
  assumes "\<forall>j \<in> set S. pixels r ! j = c" "j \<in> set (spread r c S)"
  shows "pixels r ! j = c"
  using assms by (auto simp: spread_def)

lemma grown_seed: "i < length (pixels r) \<Longrightarrow> i \<in> set ((spread r c ^^ k) [i])"
  by (induction k) (simp_all add: spread_keeps)

lemma grown_colour: "\<forall>j \<in> set ((spread r (pixels r ! i) ^^ k) [i]). pixels r ! j = pixels r ! i"
proof (induction k)
  case 0
  show ?case by simp
next
  case (Suc k)
  show ?case
  proof
    fix j
    assume "j \<in> set ((spread r (pixels r ! i) ^^ Suc k) [i])"
    then have "j \<in> set (spread r (pixels r ! i) ((spread r (pixels r ! i) ^^ k) [i]))" by simp
    with Suc show "pixels r ! j = pixels r ! i" by (rule spread_colour)
  qed
qed

lemma region_seed: "i < length (pixels r) \<Longrightarrow> i \<in> set (region r i)"
  by (simp add: region_def grown_seed)

lemma region_colour:
  assumes "j \<in> set (region r i)"
  shows "pixels r ! j = pixels r ! i"
proof -
  from assms have "j \<in> set ((spread r (pixels r ! i) ^^ length (pixels r)) [i])"
    by (simp add: region_def)
  with grown_colour show ?thesis by blast
qed

lemma index_bound:
  assumes "in_bounds r p" "length (pixels r) = rows r * cols r"
  shows "index r p < length (pixels r)"
proof -
  from assms(1) have x: "nat (fst p) < cols r" and y: "nat (snd p) < rows r"
    by (auto simp: in_bounds_def)
  then have "nat (snd p) * cols r + nat (fst p) < Suc (nat (snd p)) * cols r" by simp
  also have "\<dots> \<le> rows r * cols r" using y by (intro mult_le_mono1) simp
  finally show ?thesis by (simp add: index_def assms(2))
qed

lemma flood_fill_idem:
  assumes dense: "length (pixels r) = rows r * cols r"
    and first: "flood_fill r m p v = Inr r'"
    and m': "rows m' = rows r' + 2" "cols m' = cols r' + 2" "chans m' = 1"
  shows "flood_fill r' m' p v = Inr r'"
proof -
  let ?n = "length (pixels r)" and ?i = "index r p" and ?v = "take (chans r) v"
  from first have inb: "in_bounds r p"
    by (auto simp: flood_fill_def split: if_splits)
  from first have r': "r' = r\<lparr>pixels := map (\<lambda>j. if j \<in> set (region r ?i) then ?v else pixels r ! j)
                                          [0..<?n]\<rparr>"
    by (auto simp: flood_fill_def Let_def split: if_splits)
  have i: "?i < ?n" using inb dense by (rule index_bound)
  have dims: "rows r' = rows r" "cols r' = cols r" "chans r' = chans r" "length (pixels r') = ?n"
    by (simp_all add: r')
  have idx: "index r' p = ?i" by (simp add: index_def dims)
  have px: "pixels r' ! j = (if j \<in> set (region r ?i) then ?v else pixels r ! j)" if "j < ?n" for j
    using that by (simp add: r')
  have seed: "pixels r' ! ?i = ?v" using i region_seed [OF i] by (simp add: px)
  have i': "?i < length (pixels r')" using i by (simp add: dims)
  have same: "(if j \<in> set (region r' ?i) then ?v else pixels r' ! j) = pixels r' ! j" if "j < ?n" for j
  proof (cases "j \<in> set (region r' ?i)")
    case True
    then have "pixels r' ! j = pixels r' ! ?i" by (rule region_colour)
    with seed True show ?thesis by simp
  next
    case False
    then show ?thesis by simp
  qed
  have "map (\<lambda>j. if j \<in> set (region r' ?i) then ?v else pixels r' ! j) [0..<?n] = pixels r'"
  proof (rule nth_equalityI)
    show "length (map (\<lambda>j. if j \<in> set (region r' ?i) then ?v else pixels r' ! j) [0..<?n])
            = length (pixels r')" by (simp add: dims)
    fix j
    assume "j < length (map (\<lambda>j. if j \<in> set (region r' ?i) then ?v else pixels r' ! j) [0..<?n])"
    then have j: "j < ?n" by simp
    then have "map (\<lambda>j. if j \<in> set (region r' ?i) then ?v else pixels r' ! j) [0..<?n] ! j
        = (if j \<in> set (region r' ?i) then ?v else pixels r' ! j)" by simp
    also have "\<dots> = pixels r' ! j" using j by (rule same)
    finally show "map (\<lambda>j. if j \<in> set (region r' ?i) then ?v else pixels r' ! j) [0..<?n] ! j
        = pixels r' ! j" .
  qed
  moreover have "in_bounds r' p" using inb by (simp add: in_bounds_def dims)
  ultimately show ?thesis
    using m' unfolding flood_fill_def Let_def idx dims by simp
qed

lemma flood_fill_succeeds:
  assumes "in_bounds r p" "rows m = rows r + 2" "cols m = cols r + 2" "chans m = 1"
  shows "\<exists>r'. flood_fill r m p v = Inr r' \<and> rows r' = rows r \<and> cols r' = cols r"
  using assms by (simp add: flood_fill_def Let_def)

lemma zeros_dims: "rows (zeros h w) = h" "cols (zeros h w) = w" "chans (zeros h w) = 1"
  by (simp_all add: zeros_def Mat_fill_def)

section \<open>What the pipeline paints\<close>

lemma repair_gaps_none:
  "\<forall>c \<in> set cs. \<not> contourArea L c < th \<Longrightarrow> repair_gaps L cs th s = (s, None)"
  by (induction cs) simp_all

lemma setTo_white:
  assumes "setTo (Mat_fill h w 3 [255, 255, 255, 0]) [0, 0, 0, 0] bin = Inr strokes"
  shows "strokes = \<lparr>rows = h, cols = w, chans = 3,
                    pixels = map (\<lambda>m. if nonzero m then [0, 0, 0] else [255, 255, 255]) (pixels bin)\<rparr>"
proof -
  have t: "take 3 [0, 0, 0, 0 :: byte] = [0, 0, 0]" "take 3 [255, 255, 255, 0 :: byte] = [255, 255, 255]"
    by (simp_all add: eval_nat_numeral)
  have white: "Mat_fill h w 3 [255, 255, 255, 0]
      = \<lparr>rows = h, cols = w, chans = 3, pixels = replicate (h * w) [255, 255, 255]\<rparr>"
    by (simp add: Mat_fill_def t)
  from assms have len: "length (pixels bin) = h * w"
    unfolding white setTo_def by (simp split: if_splits)
  from assms have strokes: "strokes = \<lparr>rows = h, cols = w, chans = 3,
      pixels = map (\<lambda>(p, m). if nonzero m then [0, 0, 0] else p)
                 (zip (replicate (h * w) [255, 255, 255]) (pixels bin))\<rparr>"
    unfolding white setTo_def by (simp add: t split: if_splits cong: if_cong)
  have "map (\<lambda>(p, m). if nonzero m then [0, 0, 0] else p) (zip (replicate (h * w) [255, 255, 255]) (pixels bin))
      = map (\<lambda>m. if nonzero m then [0, 0, 0] else [255, 255, 255 :: byte]) (pixels bin)"
    by (rule nth_equalityI) (simp_all add: len)
  with strokes show ?thesis by simp
qed

lemma draw_strokes_pixels:
  assumes "draw_strokes img bin s = (s', None)"
  shows "page s' = \<lparr>rows = rows img, cols = cols img, chans = 3,
                    pixels = map (\<lambda>m. if nonzero m then [0, 0, 0] else [255, 255, 255]) (pixels bin)\<rparr>"
proof -
  let ?white = "Mat_fill (rows img) (cols img) 3 [255, 255, 255, 0]"
  let ?s2 = "(snd (alloc ?white s))\<lparr>coloringPage := Some (fresh s)\<rparr>"
  have p2: "page ?s2 = ?white" by (simp add: page_def deref_def alloc_def fresh_def)
  have d: "draw_strokes img bin s =
      (case setTo (page ?s2) [0, 0, 0, 0] bin of
         Inl what \<Rightarrow> (?s2, Some what)
       | Inr strokes \<Rightarrow> (store (coloringPage ?s2) strokes ?s2, None))"
    by (simp add: draw_strokes_def Let_def case_prod_beta cong: sum.case_cong)
  from assms obtain strokes where S: "setTo ?white [0, 0, 0, 0] bin = Inr strokes"
    and s': "s' = store (coloringPage ?s2) strokes ?s2"
    unfolding d p2 by (cases "setTo ?white [0, 0, 0, 0] bin") simp_all
  have "page s' = strokes" by (simp add: s' page_def deref_def alloc_def store_def fresh_def)
  with setTo_white [OF S] show ?thesis by simp
qed

lemma outline_is_threshold_mask:
  assumes "render L img bin cs s = (s', None)" and "\<forall>c \<in> set cs. \<not> contourArea L c < 50"
  shows "page s' = \<lparr>rows = rows img, cols = cols img, chans = 3,
                    pixels = map (\<lambda>m. if nonzero m then [0, 0, 0] else [255, 255, 255]) (pixels bin)\<rparr>"
proof -
  from assms(1) obtain s1 s2 s3 where
    1: "intersect L cs s = (s1, None)" and 2: "draw_strokes img bin s1 = (s2, None)"
    and 3: "repair_gaps L cs 50 s2 = (s3, None)" and 4: "s' = finish img s3"
    by (auto simp: render_def split: prod.splits option.splits)
  from 3 have s3: "s3 = s2" by (simp add: repair_gaps_none [OF assms(2)])
  have cp: "coloringPage s2 = Some (fresh s1)" and f: "fresh s2 = Suc (fresh s1)"
    using draw_strokes_grows(2,3) [OF 2] by simp_all
  have "page (finish img s2) = page s2"
    using f by (simp add: finish_Some [OF cp] page_def cp deref_def fresh_def nth_append)
  with draw_strokes_pixels [OF 2] 4 s3 show ?thesis by simp
qed

section \<open>The sample session\<close>

lemma loaded_eq: "generateColoringPage bench ''photo.png'' session = (loaded, [])"
  by code_simp

lemma painted_eq: "mouseDoubleClickEvent bench (click (1, 0)) loaded = (painted, [])"
  by code_simp

lemma reloaded_eq: "generateColoringPage bench ''photo.png'' loaded = (reloaded, [])"
  by code_simp

lemma reachable_session: "reachable bench session"
  unfolding session_def by (rule reachable.start) simp_all

lemma reachable_loaded: "reachable bench loaded"
  using reachable.after [OF reachable_session, of "Browse ''photo.png''"]
  by (simp add: browseImage_def loaded_eq)

lemma reachable_painted: "reachable bench painted"
  using reachable.after [OF reachable_loaded, of "MouseDoubleClick (click (1, 0))"]
  by (simp add: painted_eq)

lemma fault_outside:
  "fill_call bench (click (5, 5)) loaded = Inl ''Seed point is outside of image''"
  by code_simp

lemma refilled:
  "length (coloringPageHistory (fst (handle bench (MouseDoubleClick (click (1, 0))) painted)))
     = Suc (length (coloringPageHistory painted))"
  by code_simp

lemma sample_masks:
  "masks bench photo = Inr (\<lparr>rows = 1, cols = 2, chans = 1, pixels = [[255], [0]]\<rparr>,
                            \<lparr>rows = 1, cols = 2, chans = 1, pixels = [[255], [255]]\<rparr>)"
  by code_simp

lemma sample_contours:
  "findContours bench \<lparr>rows = 1, cols = 2, chans = 1, pixels = [[255], [255]]\<rparr>
     = Inr [[(0, 0), (0, 0), (1, 0), (1, 0)]]
   \<and> contourArea bench [(0, 0), (0, 0), (1, 0), (1, 0)] < 150
   \<and> contour_mask bench \<lparr>rows = 1, cols = 2, chans = 1, pixels = [[255], [255]]\<rparr> []
     = Inr (zeros 1 2)"
  by code_simp

lemma sample_dense:
  "length (pixels (page loaded)) = rows (page loaded) * cols (page loaded)
   \<and> in_bounds (page loaded) (point_diff (pos (click (1, 0))) (area_pos loaded))"
  by code_simp

section \<open>The claims\<close>

subsection \<open>Edit history\<close>

text \<open>
  Claim C2, as amended. A successful run of the pipeline ends with one more snapshot on the
  history than it started with, a copy of the raster it generated, above the snapshots that
  were there; the history holds exactly one entry when the run started with an empty one.
\<close>

theorem generation_appends_one_snapshot:
  assumes "reachable L s" and "generateColoringPage L path s = (s', [])"
  shows "length (coloringPageHistory s') = Suc (length (coloringPageHistory s))
       \<and> snapshots s' = snapshots s @ [page s']
       \<and> (coloringPageHistory s = [] \<longrightarrow> length (coloringPageHistory s') = 1)"
proof -
  have wf: "well_formed s" using assms(1) by (rule reachable_well_formed)
  from generate_snapshots [OF wf assms(2)]
  obtain c where "coloringPageHistory s' = coloringPageHistory s @ [c]"
    and "snapshots s' = snapshots s @ [page s']" by auto
  then show ?thesis by simp
qed

theorem generation_appends_one_snapshot_witness:
  "reachable bench session \<and> generateColoringPage bench ''photo.png'' session = (loaded, [])
   \<and> coloringPageHistory session = []
   \<and> length (coloringPageHistory loaded) = 1
   \<and> snapshots loaded = snapshots session @ [page loaded]"
proof -
  have h: "coloringPageHistory session = []" by (simp add: session_def initial_def)
  show ?thesis
    using generation_appends_one_snapshot [OF reachable_session loaded_eq] reachable_session
      loaded_eq h
    by simp
qed

text \<open>
  Claim C2, as stated, fails: after a photo was loaded, a second successful run leaves two
  snapshots on the history.
\<close>

theorem second_load_keeps_history:
  "generateColoringPage bench ''photo.png'' session = (loaded, [])
   \<and> generateColoringPage bench ''photo.png'' loaded = (reloaded, [])
   \<and> length (coloringPageHistory reloaded) \<noteq> 1"
  by (simp add: loaded_eq reloaded_eq reloaded_def)

text \<open>
  Claim C3. When the fill tool is armed on a working raster and the fill operation faults,
  the handler shows the error with the native message and the whole state, the working raster
  and the history in it, is what it was.
\<close>

theorem fill_fault_changes_nothing:
  assumes "drawingImage s \<noteq> None" and "fillToolEnabled s" and "fill_call L event s = Inl what"
  shows "mouseDoubleClickEvent L event s
           = (s, [Critical (''Failed to perform flood fill: '' @ what)])"
  using assms by (rule doubleClick_fault)

theorem fill_fault_changes_nothing_witness:
  "drawingImage loaded \<noteq> None \<and> fillToolEnabled loaded
   \<and> fill_call bench (click (5, 5)) loaded = Inl ''Seed point is outside of image''
   \<and> mouseDoubleClickEvent bench (click (5, 5)) loaded
       = (loaded, [Critical ''Failed to perform flood fill: Seed point is outside of image''])"
proof -
  have h1: "drawingImage loaded \<noteq> None" and h2: "fillToolEnabled loaded"
    by (simp_all add: loaded_def)
  show ?thesis
    using fill_fault_changes_nothing [OF h1 h2 fault_outside] h1 h2 fault_outside by simp
qed

text \<open>
  Claim C4. In a state whose history holds the baseline and \<open>N \<ge> 1\<close> commits, one undo
  removes the top snapshot and makes the working raster equal to snapshot \<open>N - 1\<close>, the
  baseline when \<open>N = 1\<close>.
\<close>

theorem undo_restores_previous_commit:
  assumes "reachable L s" and "length (coloringPageHistory s) = Suc N" and "1 \<le> N"
  shows "length (coloringPageHistory (undoLastAction s)) = N
       \<and> snapshots (undoLastAction s) = take N (snapshots s)
       \<and> page (undoLastAction s) = snapshots s ! (N - 1)"
proof -
  have wf: "well_formed s" using assms(1) by (rule reachable_well_formed)
  from assms(2,3) have "1 < length (coloringPageHistory s)" by simp
  then obtain hs h t where H: "coloringPageHistory s = hs @ [h, t]" by (rule two_or_more)
  with assms(2) have N: "N = Suc (length hs)" by simp
  have len: "length (snapshots s) = Suc N" using assms(2) by (simp add: snapshots_def)
  have "snapshots s ! (N - 1) = deref s h"
    by (simp add: snapshots_def H N nth_append)
  moreover have "butlast (snapshots s) = take N (snapshots s)"
    using len by (simp add: butlast_conv_take)
  ultimately show ?thesis
    using undo_effect [OF wf H] N by simp
qed

theorem undo_restores_previous_commit_witness:
  "reachable bench painted \<and> length (coloringPageHistory painted) = Suc 1 \<and> (1 :: nat) \<le> 1
   \<and> length (coloringPageHistory (undoLastAction painted)) = 1
   \<and> snapshots (undoLastAction painted) = take 1 (snapshots painted)
   \<and> page (undoLastAction painted) = snapshots painted ! (1 - 1)"
proof -
  have h: "length (coloringPageHistory painted) = Suc 1" by (simp add: painted_def)
  show ?thesis
    using undo_restores_previous_commit [OF reachable_painted h] reachable_painted h by simp
qed

text \<open>
  Claim C5, as amended. In every reachable state the snapshots have buffers of their own: no
  two share one, and none shares one with the working raster or with the image painted on.
  After every commit, and after every undo that removes a snapshot, the top snapshot equals
  the working raster. Freehand drawing leaves the snapshots as they are, and a fill leaves
  the snapshots that were there as they are.
\<close>

theorem snapshots_are_separate_copies:
  assumes "reachable L s"
  shows "distinct (coloringPageHistory s)
       \<and> coloringPage s \<notin> set (coloringPageHistory s)
       \<and> drawingImage s \<notin> set (coloringPageHistory s)
       \<and> (length (coloringPageHistory (fst (handle L e s))) = Suc (length (coloringPageHistory s))
            \<longrightarrow> last (snapshots (fst (handle L e s))) = page (fst (handle L e s)))
       \<and> (1 < length (coloringPageHistory s)
            \<longrightarrow> last (snapshots (undoLastAction s)) = page (undoLastAction s))
       \<and> snapshots (mouseMoveEvent L ev s) = snapshots s
       \<and> take (length (snapshots s)) (snapshots (fst (mouseDoubleClickEvent L ev s))) = snapshots s"
proof -
  have wf: "well_formed s" using assms by (rule reachable_well_formed)
  note sep = well_formedD(1,2,3) [OF wf]
  have len: "length (snapshots s) = length (coloringPageHistory s)" for s
    by (simp add: snapshots_def)
  have pushed: "last (snapshots (fst (handle L e s))) = page (fst (handle L e s))"
    if "length (coloringPageHistory (fst (handle L e s))) = Suc (length (coloringPageHistory s))"
    using handle_frame [OF wf, of L e]
  proof (elim disjE conjE exE)
    assume "coloringPageHistory (fst (handle L e s)) = coloringPageHistory s"
    with that show ?thesis by simp
  next
    assume "snapshots (fst (handle L e s)) = snapshots s @ [page (fst (handle L e s))]"
    then show ?thesis by simp
  next
    assume "1 < length (coloringPageHistory s)"
      "coloringPageHistory (fst (handle L e s)) = butlast (coloringPageHistory s)"
    with that show ?thesis by simp
  qed
  have popped: "last (snapshots (undoLastAction s)) = page (undoLastAction s)"
    if "1 < length (coloringPageHistory s)"
    using handle_frame [OF wf, of L UndoAction]
  proof (elim disjE conjE exE)
    assume "coloringPageHistory (fst (handle L UndoAction s)) = coloringPageHistory s"
    moreover have "length (coloringPageHistory (undoLastAction s)) < length (coloringPageHistory s)"
    proof -
      from that obtain hs h t where H: "coloringPageHistory s = hs @ [h, t]" by (rule two_or_more)
      show ?thesis by (simp add: undo_effect(1) [OF wf H] H)
    qed
    ultimately show ?thesis by simp
  next
    fix c
    assume "coloringPageHistory (fst (handle L UndoAction s)) = coloringPageHistory s @ [c]"
    moreover have "length (coloringPageHistory (undoLastAction s)) < length (coloringPageHistory s)"
    proof -
      from that obtain hs h t where H: "coloringPageHistory s = hs @ [h, t]" by (rule two_or_more)
      show ?thesis by (simp add: undo_effect(1) [OF wf H] H)
    qed
    ultimately show ?thesis by simp
  next
    assume "snapshots (fst (handle L UndoAction s)) = butlast (snapshots s)"
      "page (fst (handle L UndoAction s)) = last (butlast (snapshots s))"
    then show ?thesis by simp
  qed
  have move: "snapshots (mouseMoveEvent L ev s) = snapshots s"
    using quiet_frame(2) [OF wf, of "MouseMove ev" L] by (simp add: pointer_drag_def)
  have fill: "take (length (snapshots s)) (snapshots (fst (mouseDoubleClickEvent L ev s))) = snapshots s"
    using handle_frame [OF wf, of L "MouseDoubleClick ev"] by auto
  from sep pushed popped move fill show ?thesis by blast
qed

theorem snapshots_are_separate_copies_witness:
  "reachable bench painted
   \<and> length (coloringPageHistory (fst (handle bench (MouseDoubleClick (click (1, 0))) painted)))
       = Suc (length (coloringPageHistory painted))
   \<and> 1 < length (coloringPageHistory painted)
   \<and> last (snapshots (fst (handle bench (MouseDoubleClick (click (1, 0))) painted)))
       = page (fst (handle bench (MouseDoubleClick (click (1, 0))) painted))
   \<and> last (snapshots (undoLastAction painted)) = page (undoLastAction painted)
   \<and> snapshots (mouseMoveEvent bench (hover (0, 0)) painted) = snapshots painted"
proof -
  have h: "1 < length (coloringPageHistory painted)" by (simp add: painted_def)
  show ?thesis
    using snapshots_are_separate_copies [OF reachable_painted,
        of "MouseDoubleClick (click (1, 0))" "hover (0, 0)"]
      reachable_painted refilled h
    by simp
qed

text \<open>
  Claim C5, as stated, fails: with one snapshot on the history an undo after a freehand
  stroke does nothing, and the top snapshot is not the working raster.
\<close>

theorem idle_undo_leaves_stroke:
  "length (coloringPageHistory (run bench [MousePress (click (1, 0)), MouseMove (hover (1, 0))] loaded)) = 1
   \<and> last (snapshots (undoLastAction
              (run bench [MousePress (click (1, 0)), MouseMove (hover (1, 0))] loaded)))
       \<noteq> page (undoLastAction
              (run bench [MousePress (click (1, 0)), MouseMove (hover (1, 0))] loaded))"
  by code_simp

text \<open>
  Claim C6. A history that holds a snapshot holds one after every run of events, and with
  exactly one snapshot an undo request changes nothing and shows no error.
\<close>

theorem history_never_empties:
  "(coloringPageHistory s \<noteq> [] \<longrightarrow> coloringPageHistory (run L es s) \<noteq> [])
   \<and> (length (coloringPageHistory s) = 1 \<longrightarrow> handle L UndoAction s = (s, []))"
  by (simp add: run_nonempty undo_noop)

theorem history_never_empties_witness:
  "coloringPageHistory loaded \<noteq> []
   \<and> coloringPageHistory (run bench [UndoAction, UndoAction] loaded) \<noteq> []
   \<and> length (coloringPageHistory loaded) = 1
   \<and> handle bench UndoAction loaded = (loaded, [])"
proof -
  have h1: "coloringPageHistory loaded \<noteq> []" and h2: "length (coloringPageHistory loaded) = 1"
    by (simp_all add: loaded_def)
  show ?thesis
    using history_never_empties [of loaded bench "[UndoAction, UndoAction]"] h1 h2 by simp
qed

text \<open>
  Claim C8, as amended. Press, move and release events commit nothing: after any sequence of
  them the history and its snapshots are what they were. An undo after drawing, when the
  history holds more than one snapshot, removes the top snapshot and makes the working raster
  the snapshot below it, so the strokes go together with the last committed fill; when the
  history holds one snapshot the undo changes nothing and the strokes stay.
\<close>

theorem drawing_commits_nothing:
  assumes "reachable L s" and "\<forall>e \<in> set es. pointer_drag e"
  shows "coloringPageHistory (run L es s) = coloringPageHistory s
       \<and> snapshots (run L es s) = snapshots s
       \<and> (1 < length (coloringPageHistory s) \<longrightarrow>
            snapshots (undoLastAction (run L es s)) = butlast (snapshots s)
            \<and> page (undoLastAction (run L es s)) = last (butlast (snapshots s)))
       \<and> (length (coloringPageHistory s) \<le> 1 \<longrightarrow> undoLastAction (run L es s) = run L es s)"
proof -
  have wf: "well_formed s" using assms(1) by (rule reachable_well_formed)
  have wf': "well_formed (run L es s)"
    using reachable_run [OF assms(1)] by (rule reachable_well_formed)
  note d = drag_frame [OF wf assms(2), of L]
  have pop: "snapshots (undoLastAction (run L es s)) = butlast (snapshots s)
       \<and> page (undoLastAction (run L es s)) = last (butlast (snapshots s))"
    if "1 < length (coloringPageHistory s)"
  proof -
    from that d have "1 < length (coloringPageHistory (run L es s))" by simp
    then obtain hs h t where H: "coloringPageHistory (run L es s) = hs @ [h, t]"
      by (rule two_or_more)
    have "last (butlast (snapshots (run L es s))) = deref (run L es s) h"
      by (simp add: snapshots_def H butlast_append)
    with undo_effect(2,3) [OF wf' H] d show ?thesis by simp
  qed
  have noop: "undoLastAction (run L es s) = run L es s" if "length (coloringPageHistory s) \<le> 1"
    using that d by (simp add: undo_noop)
  from d pop noop show ?thesis by blast
qed

theorem drawing_commits_nothing_witness:
  "reachable bench painted
   \<and> pointer_drag (MousePress (click (0, 0))) \<and> pointer_drag (MouseMove (hover (0, 0)))
   \<and> 1 < length (coloringPageHistory painted)
   \<and> snapshots (run bench [MousePress (click (0, 0)), MouseMove (hover (0, 0))] painted)
       = snapshots painted
   \<and> page (undoLastAction (run bench [MousePress (click (0, 0)), MouseMove (hover (0, 0))] painted))
       = last (butlast (snapshots painted))
   \<and> reachable bench loaded
   \<and> length (coloringPageHistory loaded) \<le> 1
   \<and> undoLastAction (run bench [MousePress (click (0, 0)), MouseMove (hover (0, 0))] loaded)
       = run bench [MousePress (click (0, 0)), MouseMove (hover (0, 0))] loaded"
proof -
  have d: "\<forall>e \<in> set [MousePress (click (0, 0)), MouseMove (hover (0, 0))]. pointer_drag e"
    by (simp add: pointer_drag_def)
  have h1: "1 < length (coloringPageHistory painted)" by (simp add: painted_def)
  have h2: "length (coloringPageHistory loaded) \<le> 1" by (simp add: loaded_def)
  show ?thesis
    using drawing_commits_nothing [OF reachable_painted d]
      drawing_commits_nothing [OF reachable_loaded d]
      reachable_painted reachable_loaded d h1 h2
    by simp
qed

text \<open>
  Claim C8, as stated, fails: after a fill and a freehand stroke, an undo makes the working
  raster the snapshot before the fill, not the raster the fill committed.
\<close>

theorem undo_after_stroke_drops_fill:
  "last (snapshots painted) = red_page
   \<and> page (undoLastAction (run bench [MousePress (click (0, 0)), MouseMove (hover (0, 0))] painted))
       \<noteq> last (snapshots painted)"
  by code_simp

subsection \<open>No working raster\<close>

text \<open>
  Claim C10. In a reachable state without a working raster, a pointer press, move or release,
  a double click and an undo request each leave the whole state unchanged and show no error.
\<close>

theorem no_raster_no_effect:
  assumes "reachable L s" and "drawingImage s = None"
  shows "handle L (MousePress ev) s = (s, []) \<and> handle L (MouseMove ev) s = (s, [])
       \<and> handle L (MouseRelease ev) s = (s, []) \<and> handle L (MouseDoubleClick ev) s = (s, [])
       \<and> handle L UndoAction s = (s, [])"
proof -
  have "well_formed s" using assms(1) by (rule reachable_well_formed)
  with assms(2) have "coloringPageHistory s = []" by (simp add: well_formedD(7))
  then have "undoLastAction s = s" by (simp add: undo_noop)
  with assms(2) show ?thesis
    by (simp add: mousePressEvent_def mouseMoveEvent_def mouseReleaseEvent_def
        doubleClick_unarmed)
qed

theorem no_raster_no_effect_witness:
  "reachable bench session \<and> drawingImage session = None
   \<and> handle bench (MousePress (click (0, 0))) session = (session, [])
   \<and> handle bench (MouseMove (click (0, 0))) session = (session, [])
   \<and> handle bench (MouseRelease (click (0, 0))) session = (session, [])
   \<and> handle bench (MouseDoubleClick (click (0, 0))) session = (session, [])
   \<and> handle bench UndoAction session = (session, [])"
proof -
  have h: "drawingImage session = None" by (simp add: session_def initial_def)
  show ?thesis
    using no_raster_no_effect [OF reachable_session h, of "click (0, 0)"] reachable_session h
    by simp
qed

subsection \<open>Region fill\<close>

text \<open>
  Claim C9. With the fill tool armed on a reachable state whose working raster is a dense grid,
  and a seed inside it, the fill succeeds, a second fill at the same seed with the same colour
  succeeds too, and the working raster after the second fill equals the one after the first.
  The fill operation is the model of \<^verbatim>\<open>cv::floodFill\<close> above.
\<close>

theorem fill_twice_is_fill_once:
  assumes "reachable L s" and "floodFill L = flood_fill"
    and "drawingImage s \<noteq> None" and "fillToolEnabled s"
    and "length (pixels (page s)) = rows (page s) * cols (page s)"
    and "in_bounds (page s) (point_diff (pos event) (area_pos s))"
  shows "snd (mouseDoubleClickEvent L event s) = []
       \<and> snd (mouseDoubleClickEvent L event (fst (mouseDoubleClickEvent L event s))) = []
       \<and> page (fst (mouseDoubleClickEvent L event (fst (mouseDoubleClickEvent L event s))))
           = page (fst (mouseDoubleClickEvent L event s))"
proof -
  let ?p = "point_diff (pos event) (area_pos s)"
  let ?v = "case fillColor s of (r, g, b) \<Rightarrow> [r, g, b, 0]"
  let ?m = "zeros (rows (page s) + 2) (cols (page s) + 2)"
  let ?s1 = "fst (mouseDoubleClickEvent L event s)"
  have wf: "well_formed s" using assms(1) by (rule reachable_well_formed)
  obtain r' where F: "flood_fill (page s) ?m ?p ?v = Inr r'"
    and dims: "rows r' = rows (page s)" "cols r' = cols (page s)"
    using flood_fill_succeeds [OF assms(6), of ?m ?v] by (auto simp: zeros_dims)
  have call: "fill_call L event s = Inr r'" unfolding fill_call_def assms(2) by (rule F)
  note first = doubleClick_snapshots [OF wf assms(3,4) call]
  from assms(3) obtain a where cp: "coloringPage s = Some a"
    using well_formedD(6) [OF wf] by auto
  have a: "a < fresh s" using wf cp by (rule well_formedD(4))
  note eq = doubleClick_filled [OF assms(3,4) call cp a]
  have wf1: "well_formed ?s1" using wf by (rule well_formed_doubleClick)
  have armed1: "drawingImage ?s1 \<noteq> None" "fillToolEnabled ?s1" using assms(4) by (simp_all add: eq)
  have same: "area_pos ?s1 = area_pos s" "fillColor ?s1 = fillColor s" by (simp_all add: eq)
  have "flood_fill r' (zeros (rows r' + 2) (cols r' + 2)) ?p ?v = Inr r'"
    using assms(5) F by (rule flood_fill_idem) (simp_all add: zeros_dims)
  then have call1: "fill_call L event ?s1 = Inr r'"
    unfolding fill_call_def assms(2) first(3) same .
  note second = doubleClick_snapshots [OF wf1 armed1 call1]
  from first(3,4) second(3,4) show ?thesis by simp
qed

theorem fill_twice_is_fill_once_witness:
  "reachable bench loaded \<and> floodFill bench = flood_fill
   \<and> drawingImage loaded \<noteq> None \<and> fillToolEnabled loaded
   \<and> length (pixels (page loaded)) = rows (page loaded) * cols (page loaded)
   \<and> in_bounds (page loaded) (point_diff (pos (click (1, 0))) (area_pos loaded))
   \<and> page (fst (mouseDoubleClickEvent bench (click (1, 0)) loaded)) = red_page
   \<and> page (fst (mouseDoubleClickEvent bench (click (1, 0))
                  (fst (mouseDoubleClickEvent bench (click (1, 0)) loaded))))
       = page (fst (mouseDoubleClickEvent bench (click (1, 0)) loaded))"
proof -
  have h2: "floodFill bench = flood_fill" by (simp add: bench_def)
  have h3: "drawingImage loaded \<noteq> None" and h4: "fillToolEnabled loaded"
    by (simp_all add: loaded_def)
  note h5 = conjunct1 [OF sample_dense] and h6 = conjunct2 [OF sample_dense]
  have p: "page (fst (mouseDoubleClickEvent bench (click (1, 0)) loaded)) = red_page"
    unfolding painted_eq fst_conv by (simp add: painted_def page_def deref_def fresh_def loaded_def)
  show ?thesis
    using fill_twice_is_fill_once [OF reachable_loaded h2 h3 h4 h5 h6] reachable_loaded
      h2 h3 h4 h5 h6 p
    by simp
qed

subsection \<open>The outline raster\<close>

text \<open>
  Claim C1 fails on the code. The claim has a pixel black exactly when it is set in both the
  threshold mask and the filled and closed contour mask. The code paints every pixel of the
  threshold mask black (\<open>outline_is_threshold_mask\<close>): line 241 assigns a new white raster over
  the intersection that line 239 computed, and line 242 paints with \<^verbatim>\<open>binaryImage\<close> as the mask.
  On the sample photo the threshold mask has the first pixel set, the only contour traced on
  the closed mask has area 0 and is discarded, so the contour mask and the intersection, buffer
  0 of the store, are all zero; the first pixel of the outline is black all the same.
\<close>

theorem stroke_outside_every_contour:
  "masks bench photo = Inr (\<lparr>rows = 1, cols = 2, chans = 1, pixels = [[255], [0]]\<rparr>,
                            \<lparr>rows = 1, cols = 2, chans = 1, pixels = [[255], [255]]\<rparr>)
   \<and> findContours bench \<lparr>rows = 1, cols = 2, chans = 1, pixels = [[255], [255]]\<rparr>
       = Inr [[(0, 0), (0, 0), (1, 0), (1, 0)]]
   \<and> contourArea bench [(0, 0), (0, 0), (1, 0), (1, 0)] < 150
   \<and> contour_mask bench \<lparr>rows = 1, cols = 2, chans = 1, pixels = [[255], [255]]\<rparr> []
       = Inr (zeros 1 2)
   \<and> generateColoringPage bench ''photo.png'' session = (loaded, [])
   \<and> heap loaded ! 0 = zeros 1 2
   \<and> page loaded = \<lparr>rows = 1, cols = 2, chans = 3, pixels = [[0, 0, 0], [255, 255, 255]]\<rparr>"
  using sample_masks sample_contours loaded_eq
  by (simp add: loaded_def page_def deref_def fresh_def outline_def)

end
